theory Spec2Isabelle
  imports Complex_Main "HOL-Library.Word" "HOL-Library.Signed_Division"
begin

unbundle bit_operations_syntax

section \<open>The v210 encoder of libavcodec/v210enc.c\<close>

text \<open>
  C \<open>int\<close> values are modelled as \<open>int\<close>; the division \<open>/\<close> of C truncates towards zero
  and is written \<open>sdiv\<close>.  Signed overflow is undefined in C, so the model agrees with the
  code exactly where no intermediate value leaves the range of a 32-bit \<open>int\<close>: for the
  stride and the padding these are the widths from 0 to 268435440 (lemma
  \<open>stride_in_int_range\<close>), and for the size of the packet the heights with
  \<open>height * stride\<close> at most \<open>INT_MAX\<close>.  The theorem on these numbers carries the two
  bounds as hypotheses.
  The bytes behind a plane pointer are a function from the offset to the byte
  (\<open>pic->data[i][k]\<close> is \<open>data pic i k\<close>), a pointer into a plane is the offset from the
  plane's base in units of one sample, and the bytes written through \<open>dst\<close> are the list
  of the bytes in the order they are written: every write of the code is followed by an
  advance of \<open>dst\<close> by exactly the number of bytes just written.
\<close>

subsection \<open>Helpers of libavutil\<close>

text \<open>Modelled from the spec: \<open>av_clip\<close> (libavutil/common.h is not among the sources).
  The spec gives \<open>clip(v) = max(4, min(1019, v))\<close>.\<close>

definition av_clip :: "int \<Rightarrow> int \<Rightarrow> int \<Rightarrow> int" where
  "av_clip a amin amax = max amin (min amax a)"

text \<open>Modelled from the spec: \<open>AV_WL32\<close> (libavutil/intreadwrite.h is not among the
  sources) stores a 32-bit value as four bytes, least significant byte first.\<close>

definition AV_WL32 :: "32 word \<Rightarrow> 8 word list" where
  "AV_WL32 val = [ucast val, ucast (drop_bit 8 val), ucast (drop_bit 16 val), ucast (drop_bit 24 val)]"

subsection \<open>The macros\<close>

definition CLIP :: "int \<Rightarrow> int" where
  "CLIP v = av_clip v 4 1019"

definition CLIP8 :: "int \<Rightarrow> int" where
  "CLIP8 v = av_clip v 1 254"

text \<open>The local variables \<open>y\<close>, \<open>u\<close>, \<open>v\<close> and \<open>dst\<close> of the packing code.\<close>

record pack_state =
  ptr_y :: int
  ptr_u :: int
  ptr_v :: int
  dst :: "8 word list"

text \<open>The pointer variable that a macro argument names.\<close>

datatype arg = Arg_y | Arg_u | Arg_v

type_synonym 'a planes = "(int \<Rightarrow> 'a word) \<times> (int \<Rightarrow> 'a word) \<times> (int \<Rightarrow> 'a word)"

text \<open>\<open>*a++\<close>: the sample under the pointer, promoted to \<open>int\<close>, and the pointer advanced.\<close>

fun deref_inc :: "'a::len planes \<Rightarrow> arg \<Rightarrow> 'z pack_state_scheme \<Rightarrow> int \<times> 'z pack_state_scheme" where
  "deref_inc (Y, U, V) Arg_y s = (uint (Y (ptr_y s)), s\<lparr>ptr_y := ptr_y s + 1\<rparr>)"
| "deref_inc (Y, U, V) Arg_u s = (uint (U (ptr_u s)), s\<lparr>ptr_u := ptr_u s + 1\<rparr>)"
| "deref_inc (Y, U, V) Arg_v s = (uint (V (ptr_v s)), s\<lparr>ptr_v := ptr_v s + 1\<rparr>)"

definition WRITE_PIXELS :: "'a::len planes \<Rightarrow> arg \<Rightarrow> arg \<Rightarrow> arg \<Rightarrow> 'z pack_state_scheme \<Rightarrow> 'z pack_state_scheme" where
  "WRITE_PIXELS P a b c s =
     (let (va, s) = deref_inc P a s;
          val = (word_of_int (CLIP va) :: 32 word);
          (vb, s) = deref_inc P b s;
          (vc, s) = deref_inc P c s;
          val = val OR word_of_int (push_bit 10 (CLIP vb) OR push_bit 20 (CLIP vc))
      in s\<lparr>dst := dst s @ AV_WL32 val\<rparr>)"

definition WRITE_PIXELS8 :: "'a::len planes \<Rightarrow> arg \<Rightarrow> arg \<Rightarrow> arg \<Rightarrow> 'z pack_state_scheme \<Rightarrow> 'z pack_state_scheme" where
  "WRITE_PIXELS8 P a b c s =
     (let (va, s) = deref_inc P a s;
          val = (word_of_int (push_bit 2 (CLIP8 va)) :: 32 word);
          (vb, s) = deref_inc P b s;
          (vc, s) = deref_inc P c s;
          val = val OR word_of_int (push_bit 12 (CLIP8 vb) OR push_bit 22 (CLIP8 vc))
      in s\<lparr>dst := dst s @ AV_WL32 val\<rparr>)"

subsection \<open>The bulk packers\<close>

text \<open>The loop of \<open>v210_planar_pack_8_c\<close>: \<open>for (i = 0; i < width - 11; i += 12)\<close>.\<close>

function pack_8_loop :: "8 planes \<Rightarrow> int \<Rightarrow> int \<Rightarrow> pack_state \<Rightarrow> pack_state" where
  "pack_8_loop P width i s =
     (if i < width - 11 then
        (let s = WRITE_PIXELS8 P Arg_u Arg_y Arg_v s;
             s = WRITE_PIXELS8 P Arg_y Arg_u Arg_y s;
             s = WRITE_PIXELS8 P Arg_v Arg_y Arg_u s;
             s = WRITE_PIXELS8 P Arg_y Arg_v Arg_y s;
             s = WRITE_PIXELS8 P Arg_u Arg_y Arg_v s;
             s = WRITE_PIXELS8 P Arg_y Arg_u Arg_y s;
             s = WRITE_PIXELS8 P Arg_v Arg_y Arg_u s;
             s = WRITE_PIXELS8 P Arg_y Arg_v Arg_y s
         in pack_8_loop P width (i + 12) s)
      else s)"
  by pat_completeness auto
termination
  by (relation "measure (\<lambda>(P, width, i, s). nat (width - 11 - i))") auto

text \<open>The packers return the final values of their local variables: the three pointers
  (the caller's pointers are passed by value and do not move) and the bytes written from
  \<open>dst\<close> on.\<close>

definition v210_planar_pack_8_c :: "8 planes \<Rightarrow> int \<Rightarrow> int \<Rightarrow> int \<Rightarrow> int \<Rightarrow> pack_state" where
  "v210_planar_pack_8_c P y u v width =
     pack_8_loop P width 0 \<lparr>ptr_y = y, ptr_u = u, ptr_v = v, dst = []\<rparr>"

text \<open>The loop of \<open>v210_planar_pack_10_c\<close>: \<open>for (i = 0; i < width - 5; i += 6)\<close>.\<close>

function pack_10_loop :: "16 planes \<Rightarrow> int \<Rightarrow> int \<Rightarrow> pack_state \<Rightarrow> pack_state" where
  "pack_10_loop P width i s =
     (if i < width - 5 then
        (let s = WRITE_PIXELS P Arg_u Arg_y Arg_v s;
             s = WRITE_PIXELS P Arg_y Arg_u Arg_y s;
             s = WRITE_PIXELS P Arg_v Arg_y Arg_u s;
             s = WRITE_PIXELS P Arg_y Arg_v Arg_y s
         in pack_10_loop P width (i + 6) s)
      else s)"
  by pat_completeness auto
termination
  by (relation "measure (\<lambda>(P, width, i, s). nat (width - 5 - i))") auto

definition v210_planar_pack_10_c :: "16 planes \<Rightarrow> int \<Rightarrow> int \<Rightarrow> int \<Rightarrow> int \<Rightarrow> pack_state" where
  "v210_planar_pack_10_c P y u v width =
     pack_10_loop P width 0 \<lparr>ptr_y = y, ptr_u = u, ptr_v = v, dst = []\<rparr>"

subsection \<open>The contexts and the frame\<close>

record V210EncContext =
  pack_line_8 :: "8 planes \<Rightarrow> int \<Rightarrow> int \<Rightarrow> int \<Rightarrow> int \<Rightarrow> pack_state"
  pack_line_10 :: "16 planes \<Rightarrow> int \<Rightarrow> int \<Rightarrow> int \<Rightarrow> int \<Rightarrow> pack_state"
  sample_factor_8 :: int
  sample_factor_10 :: int

text \<open>\<open>ff_v210enc_init\<close> sets all four fields.  \<open>ff_v210enc_init_x86\<close> is not among the
  sources: \<open>ARCH_X86\<close> is taken to be 0, the portable build.\<close>

definition ff_v210enc_init :: "V210EncContext" where
  "ff_v210enc_init =
     \<lparr>pack_line_8 = v210_planar_pack_8_c, pack_line_10 = v210_planar_pack_10_c,
      sample_factor_8 = 1, sample_factor_10 = 1\<rparr>"

record AVCodecContext =
  width :: int
  height :: int
  priv_data :: V210EncContext
  bits_per_coded_sample :: int
  bit_rate :: int

datatype AVPixelFormat =
  AV_PIX_FMT_YUV422P10 | AV_PIX_FMT_YUV422P | AV_PIX_FMT_YUV420P | AV_PIX_FMT_NONE

datatype AVFrameSideDataType =
  AV_FRAME_DATA_A53_CC | AV_FRAME_DATA_AFD | AV_FRAME_DATA_BARDATA
  | AV_FRAME_DATA_PIPELINE_STATS | AV_FRAME_DATA_SEI_UNREGISTERED

record AVFrameSideData =
  sd_data :: "8 word list"
  sd_size :: int

text \<open>\<open>av_frame_get_side_data\<close> is not among the sources: its answer for each type, a
  null pointer (\<open>None\<close>) or the side data found, is the field \<open>side_data\<close> of the frame.\<close>

record AVFrame =
  format :: AVPixelFormat
  interlaced_frame :: int
  linesize :: "nat \<Rightarrow> int"
  data :: "nat \<Rightarrow> int \<Rightarrow> 8 word"
  pkt_pts :: "64 word"
  side_data :: "AVFrameSideDataType \<Rightarrow> AVFrameSideData option"

text \<open>The error codes: \<open>AVERROR(EINVAL)\<close>, \<open>AVERROR(ENOMEM)\<close>, and the negative code
  that \<open>ff_alloc_packet2\<close> returned.\<close>

datatype error = AVERROR_EINVAL | AVERROR_ENOMEM | AVERROR_alloc int

subsection \<open>encode_init\<close>

text \<open>\<open>ff_guess_coded_bitrate\<close> is not among the sources and is a parameter.  The
  assignment to the deprecated \<open>coded_frame\<close> and the log message are left out.\<close>

definition encode_init :: "(AVCodecContext \<Rightarrow> int) \<Rightarrow> AVCodecContext \<Rightarrow> error + AVCodecContext" where
  "encode_init ff_guess_coded_bitrate avctx =
     (if width avctx AND 1 \<noteq> 0 then Inl AVERROR_EINVAL
      else
        (let avctx = avctx\<lparr>priv_data := ff_v210enc_init\<rparr>;
             avctx = avctx\<lparr>bits_per_coded_sample := 20\<rparr>;
             avctx = avctx\<lparr>bit_rate := ff_guess_coded_bitrate avctx * 16 sdiv 15\<rparr>
         in Inr avctx))"

subsection \<open>encode_frame\<close>

definition aligned_width :: "AVCodecContext \<Rightarrow> int" where
  "aligned_width avctx = ((width avctx + 47) sdiv 48) * 48"

definition stride :: "AVCodecContext \<Rightarrow> int" where
  "stride avctx = aligned_width avctx * 8 sdiv 3"

definition line_padding :: "AVCodecContext \<Rightarrow> int" where
  "line_padding avctx = stride avctx - ((width avctx * 8 + 11) sdiv 12) * 4"

text \<open>The scalar loop after the bulk packer, 10-bit: \<open>for (; w < avctx->width - 5; w += 6)\<close>.
  It returns the final \<open>w\<close> too.\<close>

function tail_loop_10 :: "16 planes \<Rightarrow> int \<Rightarrow> int \<Rightarrow> pack_state \<Rightarrow> int \<times> pack_state" where
  "tail_loop_10 P wd w s =
     (if w < wd - 5 then
        (let s = WRITE_PIXELS P Arg_u Arg_y Arg_v s;
             s = WRITE_PIXELS P Arg_y Arg_u Arg_y s;
             s = WRITE_PIXELS P Arg_v Arg_y Arg_u s;
             s = WRITE_PIXELS P Arg_y Arg_v Arg_y s
         in tail_loop_10 P wd (w + 6) s)
      else (w, s))"
  by pat_completeness auto
termination
  by (relation "measure (\<lambda>(P, wd, w, s). nat (wd - 5 - w))") auto

text \<open>The two tests after the scalar loop, 10-bit.  \<open>val\<close> is declared without a value;
  \<open>val0\<close> is what it holds then.  It is never read: the second test implies the first
  (lemma \<open>encode_tail_10_val0\<close>).\<close>

definition encode_tail_10 :: "32 word \<Rightarrow> 16 planes \<Rightarrow> int \<Rightarrow> int \<Rightarrow> pack_state \<Rightarrow> pack_state" where
  "encode_tail_10 val0 P wd w s =
     (let (val, s) =
            (if w < wd - 1 then
               (let s = WRITE_PIXELS P Arg_u Arg_y Arg_v s;
                    (vy, s) = deref_inc P Arg_y s;
                    val = (word_of_int (CLIP vy) :: 32 word);
                    s = (if w = wd - 2 then s\<lparr>dst := dst s @ AV_WL32 val\<rparr> else s)
                in (val, s))
             else (val0, s))
      in
        (if w < wd - 3 then
           (let (vu, s) = deref_inc P Arg_u s;
                (vy, s) = deref_inc P Arg_y s;
                val = val OR word_of_int (push_bit 10 (CLIP vu) OR push_bit 20 (CLIP vy));
                s = s\<lparr>dst := dst s @ AV_WL32 val\<rparr>;
                (vv, s) = deref_inc P Arg_v s;
                (vy, s) = deref_inc P Arg_y s;
                val = (word_of_int (CLIP vv OR push_bit 10 (CLIP vy)) :: 32 word)
            in s\<lparr>dst := dst s @ AV_WL32 val\<rparr>)
         else s))"

text \<open>One iteration of the row loop of the 10-bit branch.  The packer's bytes are
  appended and the pointers advanced as the code does; \<open>dst\<close> advances by
  \<open>sample_w * 16 * sample_factor_10\<close>, which is the number of bytes the packer of
  \<open>ff_v210enc_init\<close> writes (lemma \<open>pack_line_10_advance\<close>).\<close>

definition encode_row_10 :: "AVCodecContext \<Rightarrow> AVFrame \<Rightarrow> 16 planes \<Rightarrow> pack_state \<Rightarrow> pack_state" where
  "encode_row_10 avctx pic P s =
     (let sample_size = 6 * sample_factor_10 (priv_data avctx);
          sample_w = width avctx sdiv sample_size;
          w = sample_w * sample_size;
          s = s\<lparr>dst := dst s @ dst (pack_line_10 (priv_data avctx) P (ptr_y s) (ptr_u s) (ptr_v s) w)\<rparr>;
          s = s\<lparr>ptr_y := ptr_y s + w\<rparr>;
          s = s\<lparr>ptr_u := ptr_u s + drop_bit 1 w\<rparr>;
          s = s\<lparr>ptr_v := ptr_v s + drop_bit 1 w\<rparr>;
          (w, s) = tail_loop_10 P (width avctx) w s;
          s = encode_tail_10 0 P (width avctx) w s;
          s = s\<lparr>dst := dst s @ replicate (nat (line_padding avctx)) 0\<rparr>;
          s = s\<lparr>ptr_y := ptr_y s + (linesize pic 0 sdiv 2 - width avctx)\<rparr>;
          s = s\<lparr>ptr_u := ptr_u s + (linesize pic 1 sdiv 2 - width avctx sdiv 2)\<rparr>;
          s = s\<lparr>ptr_v := ptr_v s + (linesize pic 2 sdiv 2 - width avctx sdiv 2)\<rparr>
      in s)"

function encode_rows_10 :: "AVCodecContext \<Rightarrow> AVFrame \<Rightarrow> 16 planes \<Rightarrow> int \<Rightarrow> pack_state \<Rightarrow> pack_state" where
  "encode_rows_10 avctx pic P h s =
     (if h < height avctx then encode_rows_10 avctx pic P (h + 1) (encode_row_10 avctx pic P s)
      else s)"
  by pat_completeness auto
termination
  by (relation "measure (\<lambda>(avctx, pic, P, h, s). nat (height avctx - h))") auto

text \<open>The 8-bit branch keeps \<open>u_even\<close> and \<open>v_even\<close> beside the three pointers.\<close>

record enc8_state = pack_state +
  u_even :: int
  v_even :: int

text \<open>The scalar loop after the bulk packer, 8-bit.\<close>

function tail_loop_8 :: "8 planes \<Rightarrow> int \<Rightarrow> int \<Rightarrow> enc8_state \<Rightarrow> int \<times> enc8_state" where
  "tail_loop_8 P wd w s =
     (if w < wd - 5 then
        (let s = WRITE_PIXELS8 P Arg_u Arg_y Arg_v s;
             s = WRITE_PIXELS8 P Arg_y Arg_u Arg_y s;
             s = WRITE_PIXELS8 P Arg_v Arg_y Arg_u s;
             s = WRITE_PIXELS8 P Arg_y Arg_v Arg_y s
         in tail_loop_8 P wd (w + 6) s)
      else (w, s))"
  by pat_completeness auto
termination
  by (relation "measure (\<lambda>(P, wd, w, s). nat (wd - 5 - w))") auto

text \<open>The two tests after the scalar loop, 8-bit; \<open>val0\<close> as in \<open>encode_tail_10\<close>.\<close>

definition encode_tail_8 :: "32 word \<Rightarrow> 8 planes \<Rightarrow> int \<Rightarrow> int \<Rightarrow> enc8_state \<Rightarrow> enc8_state" where
  "encode_tail_8 val0 P wd w s =
     (let (val, s) =
            (if w < wd - 1 then
               (let s = WRITE_PIXELS8 P Arg_u Arg_y Arg_v s;
                    (vy, s) = deref_inc P Arg_y s;
                    val = (word_of_int (push_bit 2 (CLIP8 vy)) :: 32 word);
                    s = (if w = wd - 2 then s\<lparr>dst := dst s @ AV_WL32 val\<rparr> else s)
                in (val, s))
             else (val0, s))
      in
        (if w < wd - 3 then
           (let (vu, s) = deref_inc P Arg_u s;
                (vy, s) = deref_inc P Arg_y s;
                val = val OR word_of_int (push_bit 12 (CLIP8 vu) OR push_bit 22 (CLIP8 vy));
                s = s\<lparr>dst := dst s @ AV_WL32 val\<rparr>;
                (vv, s) = deref_inc P Arg_v s;
                (vy, s) = deref_inc P Arg_y s;
                val = (word_of_int (push_bit 2 (CLIP8 vv) OR push_bit 12 (CLIP8 vy)) :: 32 word)
            in s\<lparr>dst := dst s @ AV_WL32 val\<rparr>)
         else s))"

text \<open>The choice of the chroma line at the head of the row loop of the 8-bit branch, for
  row \<open>h\<close> (never negative, so \<open>%\<close> is \<open>mod\<close>).\<close>

definition select_chroma :: "AVFrame \<Rightarrow> int \<Rightarrow> enc8_state \<Rightarrow> enc8_state" where
  "select_chroma pic h s =
     (if format pic = AV_PIX_FMT_YUV420P then
        (if interlaced_frame pic = 1 then
           (if h mod 4 = 0 then s\<lparr>u_even := ptr_u s, v_even := ptr_v s\<rparr>
            else if h mod 4 = 2 then s\<lparr>ptr_u := u_even s, ptr_v := v_even s\<rparr>
            else s)
         else
           (if h mod 2 = 1 then s\<lparr>ptr_u := u_even s, ptr_v := v_even s\<rparr>
            else s\<lparr>u_even := ptr_u s, v_even := ptr_v s\<rparr>))
      else s)"

text \<open>One iteration of the row loop of the 8-bit branch.\<close>

definition encode_row_8 :: "AVCodecContext \<Rightarrow> AVFrame \<Rightarrow> 8 planes \<Rightarrow> int \<Rightarrow> enc8_state \<Rightarrow> enc8_state" where
  "encode_row_8 avctx pic P h s =
     (let s = select_chroma pic h s;
          sample_size = 12 * sample_factor_8 (priv_data avctx);
          sample_w = width avctx sdiv sample_size;
          w = sample_w * sample_size;
          s = s\<lparr>dst := dst s @ dst (pack_line_8 (priv_data avctx) P (ptr_y s) (ptr_u s) (ptr_v s) w)\<rparr>;
          s = s\<lparr>ptr_y := ptr_y s + w\<rparr>;
          s = s\<lparr>ptr_u := ptr_u s + drop_bit 1 w\<rparr>;
          s = s\<lparr>ptr_v := ptr_v s + drop_bit 1 w\<rparr>;
          (w, s) = tail_loop_8 P (width avctx) w s;
          s = encode_tail_8 0 P (width avctx) w s;
          s = s\<lparr>dst := dst s @ replicate (nat (line_padding avctx)) 0\<rparr>;
          s = s\<lparr>ptr_y := ptr_y s + (linesize pic 0 - width avctx)\<rparr>;
          s = s\<lparr>ptr_u := ptr_u s + (linesize pic 1 - width avctx sdiv 2)\<rparr>;
          s = s\<lparr>ptr_v := ptr_v s + (linesize pic 2 - width avctx sdiv 2)\<rparr>
      in s)"

function encode_rows_8 :: "AVCodecContext \<Rightarrow> AVFrame \<Rightarrow> 8 planes \<Rightarrow> int \<Rightarrow> enc8_state \<Rightarrow> enc8_state" where
  "encode_rows_8 avctx pic P h s =
     (if h < height avctx then encode_rows_8 avctx pic P (h + 1) (encode_row_8 avctx pic P h s)
      else s)"
  by pat_completeness auto
termination
  by (relation "measure (\<lambda>(avctx, pic, P, h, s). nat (height avctx - h))") auto

text \<open>\<open>(const uint16_t *)pic->data[i]\<close>: sample \<open>k\<close> of a plane read as 16-bit values, on
  a little-endian host.\<close>

definition cast_u16 :: "(int \<Rightarrow> 8 word) \<Rightarrow> int \<Rightarrow> 16 word" where
  "cast_u16 p k = word_cat (p (2 * k + 1)) (p (2 * k))"

datatype AVPacketSideDataType =
  AV_PKT_DATA_ORIG_PTS | AV_PKT_DATA_A53_CC | AV_PKT_DATA_AFD | AV_PKT_DATA_BARDATA
  | AV_PKT_DATA_PIPELINE_STATS | AV_PKT_DATA_SEI_UNREGISTERED

text \<open>\<open>pkt_data\<close> is the list of the bytes written to \<open>pkt->data\<close>, from its start, and
  \<open>pkt_side_data\<close> the side data added to the packet, each with its type, in the order
  they are added.\<close>

record AVPacket =
  pkt_size :: int
  pkt_data :: "8 word list"
  pkt_side_data :: "(AVPacketSideDataType \<times> 8 word list) list"
  pkt_flags :: int

definition AV_PKT_FLAG_KEY :: int where
  "AV_PKT_FLAG_KEY = 1"

text \<open>\<open>*orig_pts = pic->pkt_pts\<close>: the eight bytes of an \<open>int64_t\<close> in the memory of a
  little-endian host.\<close>

definition store_int64 :: "64 word \<Rightarrow> 8 word list" where
  "store_int64 val = map (\<lambda>i. ucast (drop_bit (8 * i) val)) [0..<8]"

text \<open>The block that \<open>encode_frame\<close> repeats for five types of side data (lines 273 to
  316): the side data of the frame, when there is one and it is not empty, is copied to
  a new side data of the packet; the function returns \<open>AVERROR(ENOMEM)\<close> when the packet
  gives no buffer.  \<open>av_packet_new_side_data\<close> is not among the sources: the parameter says,
  for the type and the size asked, whether it returns a buffer.\<close>

definition copy_side_data ::
  "(AVPacketSideDataType \<Rightarrow> int \<Rightarrow> bool) \<Rightarrow> AVFrame \<Rightarrow> AVFrameSideDataType \<Rightarrow> AVPacketSideDataType
     \<Rightarrow> AVPacket \<Rightarrow> error + AVPacket" where
  "copy_side_data av_packet_new_side_data pic ftype ptype pkt =
     (case side_data pic ftype of
        None \<Rightarrow> Inr pkt
      | Some sd \<Rightarrow>
          if sd_size sd \<noteq> 0 then
            (if av_packet_new_side_data ptype (sd_size sd)
             then Inr (pkt\<lparr>pkt_side_data :=
                          pkt_side_data pkt @ [(ptype, take (nat (sd_size sd)) (sd_data sd))]\<rparr>)
             else Inl AVERROR_ENOMEM)
          else Inr pkt)"

text \<open>\<open>encode_frame\<close>.  \<open>ff_alloc_packet2\<close> is not among the sources: the parameter gives
  its return code for the size asked, and the packet it gives is taken to have no side
  data and no flags.  The result \<open>Inr pkt\<close> is the return of 0 with \<open>*got_packet = 1\<close>.  The
  calls of \<open>av_vtune_get_timestamp\<close> and \<open>av_vtune_log_event\<close> and the log message are
  left out.\<close>

definition encode_frame ::
  "(int \<Rightarrow> int) \<Rightarrow> (AVPacketSideDataType \<Rightarrow> int \<Rightarrow> bool) \<Rightarrow> AVCodecContext \<Rightarrow> AVFrame
     \<Rightarrow> error + AVPacket" where
  "encode_frame ff_alloc_packet2 av_packet_new_side_data avctx pic =
     (let ret = ff_alloc_packet2 (height avctx * stride avctx) in
      if ret < 0 then Inl (AVERROR_alloc ret)
      else
        (let pkt = \<lparr>pkt_size = height avctx * stride avctx, pkt_data = [],
                    pkt_side_data = [], pkt_flags = 0\<rparr>;
             pkt = (if av_packet_new_side_data AV_PKT_DATA_ORIG_PTS 8
                    then pkt\<lparr>pkt_side_data :=
                           pkt_side_data pkt @ [(AV_PKT_DATA_ORIG_PTS, store_int64 (pkt_pts pic))]\<rparr>
                    else pkt);
             pkt =
               (if format pic = AV_PIX_FMT_YUV422P10 then
                  (let P = (cast_u16 (data pic 0), cast_u16 (data pic 1), cast_u16 (data pic 2));
                       s = encode_rows_10 avctx pic P 0 \<lparr>ptr_y = 0, ptr_u = 0, ptr_v = 0, dst = []\<rparr>
                   in pkt\<lparr>pkt_data := dst s\<rparr>)
                else if format pic = AV_PIX_FMT_YUV422P \<or> format pic = AV_PIX_FMT_YUV420P then
                  (let P = (data pic 0, data pic 1, data pic 2);
                       s = encode_rows_8 avctx pic P 0
                             \<lparr>ptr_y = 0, ptr_u = 0, ptr_v = 0, dst = [], u_even = 0, v_even = 0\<rparr>
                   in pkt\<lparr>pkt_data := dst s\<rparr>)
                else pkt)
         in
           case copy_side_data av_packet_new_side_data pic
                  AV_FRAME_DATA_A53_CC AV_PKT_DATA_A53_CC pkt of
             Inl e \<Rightarrow> Inl e
           | Inr pkt \<Rightarrow>
           case copy_side_data av_packet_new_side_data pic
                  AV_FRAME_DATA_AFD AV_PKT_DATA_AFD pkt of
             Inl e \<Rightarrow> Inl e
           | Inr pkt \<Rightarrow>
           case copy_side_data av_packet_new_side_data pic
                  AV_FRAME_DATA_BARDATA AV_PKT_DATA_BARDATA pkt of
             Inl e \<Rightarrow> Inl e
           | Inr pkt \<Rightarrow>
           case copy_side_data av_packet_new_side_data pic
                  AV_FRAME_DATA_PIPELINE_STATS AV_PKT_DATA_PIPELINE_STATS pkt of
             Inl e \<Rightarrow> Inl e
           | Inr pkt \<Rightarrow>
           case copy_side_data av_packet_new_side_data pic
                  AV_FRAME_DATA_SEI_UNREGISTERED AV_PKT_DATA_SEI_UNREGISTERED pkt of
             Inl e \<Rightarrow> Inl e
           | Inr pkt \<Rightarrow> Inr (pkt\<lparr>pkt_flags := pkt_flags pkt OR AV_PKT_FLAG_KEY\<rparr>)))"

section \<open>Reading the packet\<close>

text \<open>The definitions of this section are not code of the encoder: they say how the
  packet is read back when a property of its contents is stated.\<close>

text \<open>Four bytes read as a little-endian 32-bit value.\<close>

definition AV_RL32 :: "8 word list \<Rightarrow> 32 word" where
  "AV_RL32 bs = ucast (bs ! 0) OR push_bit 8 (ucast (bs ! 1)) OR push_bit 16 (ucast (bs ! 2)) OR push_bit 24 (ucast (bs ! 3))"

text \<open>Field \<open>k\<close> (0, 1 or 2) of a packed word: bits \<open>10k\<close> to \<open>10k + 9\<close>.\<close>

definition field :: "nat \<Rightarrow> 32 word \<Rightarrow> int" where
  "field k w = uint (take_bit 10 (drop_bit (10 * k) w))"

text \<open>Output line \<open>r\<close> of a packet, word \<open>k\<close> of a line, and 10-bit field \<open>i\<close> of a line
  (three fields to a word).\<close>

definition out_line :: "AVCodecContext \<Rightarrow> 8 word list \<Rightarrow> nat \<Rightarrow> 8 word list" where
  "out_line avctx bytes r = take (nat (stride avctx)) (drop (r * nat (stride avctx)) bytes)"

definition out_word :: "8 word list \<Rightarrow> nat \<Rightarrow> 32 word" where
  "out_word bytes k = AV_RL32 (take 4 (drop (4 * k) bytes))"

definition out_field :: "8 word list \<Rightarrow> nat \<Rightarrow> int" where
  "out_field bytes i = field (i mod 3) (out_word bytes (i div 3))"

text \<open>Sample \<open>x\<close> of row \<open>r\<close> of plane \<open>c\<close> of a frame, for the 10-bit format (rows are
  \<open>linesize / 2\<close> samples apart) and for the 8-bit formats.\<close>

definition plane_sample_10 :: "AVFrame \<Rightarrow> nat \<Rightarrow> int \<Rightarrow> int \<Rightarrow> int" where
  "plane_sample_10 pic c r x = uint (cast_u16 (data pic c) (r * (linesize pic c sdiv 2) + x))"

definition plane_sample_8 :: "AVFrame \<Rightarrow> nat \<Rightarrow> int \<Rightarrow> int \<Rightarrow> int" where
  "plane_sample_8 pic c r x = uint (data pic c (r * linesize pic c + x))"

section \<open>The layout of a line\<close>

text \<open>The word with the three fields \<open>a\<close>, \<open>b\<close>, \<open>c\<close>: \<open>a | b << 10 | c << 20\<close>.\<close>

definition v210_word :: "int \<Rightarrow> int \<Rightarrow> int \<Rightarrow> 32 word" where
  "v210_word a b c = word_of_int (a OR push_bit 10 b OR push_bit 20 c)"

text \<open>The samples of \<open>n\<close> pixel pairs in the order of the wire, from the pointers \<open>y\<close>,
  \<open>u\<close>, \<open>v\<close> on: \<open>U\<^sub>j\<close>, \<open>Y\<^sub>2\<^sub>j\<close>, \<open>V\<^sub>j\<close>, \<open>Y\<^sub>2\<^sub>j\<^sub>+\<^sub>1\<close> for each pair \<open>j\<close>.\<close>

definition wire_samples :: "'a::len planes \<Rightarrow> int \<Rightarrow> int \<Rightarrow> int \<Rightarrow> nat \<Rightarrow> int list" where
  "wire_samples P y u v n =
     concat (map (\<lambda>j. [uint (fst (snd P) (u + int j)), uint (fst P (y + 2 * int j)),
                        uint (snd (snd P) (v + int j)), uint (fst P (y + 2 * int j + 1))]) [0..<n])"

text \<open>Fields packed three to a word, the last word filled with zero fields.\<close>

fun pack_words :: "int list \<Rightarrow> 32 word list" where
  "pack_words (a # b # c # xs) = v210_word a b c # pack_words xs"
| "pack_words [a, b] = [v210_word a b 0]"
| "pack_words [a] = [v210_word a 0 0]"
| "pack_words [] = []"

text \<open>The bytes of \<open>n\<close> pixel pairs, each sample mapped to its field by \<open>f\<close>.\<close>

definition packed_bytes :: "(int \<Rightarrow> int) \<Rightarrow> 'a::len planes \<Rightarrow> int \<Rightarrow> int \<Rightarrow> int \<Rightarrow> nat \<Rightarrow> 8 word list" where
  "packed_bytes f P y u v n = concat (map AV_WL32 (pack_words (map f (wire_samples P y u v n))))"

text \<open>The field of an 8-bit sample: \<open>CLIP8(s) << 2\<close>.\<close>

definition up2 :: "int \<Rightarrow> int" where
  "up2 x = push_bit 2 (CLIP8 x)"

text \<open>The state after \<open>n\<close> pixel pairs have been packed from state \<open>s\<close>, and after a row has
  been finished.\<close>

definition packed :: "(int \<Rightarrow> int) \<Rightarrow> 'a::len planes \<Rightarrow> nat \<Rightarrow> 'z pack_state_scheme \<Rightarrow> 'z pack_state_scheme" where
  "packed f P n s =
     s\<lparr>ptr_y := ptr_y s + 2 * int n, ptr_u := ptr_u s + int n, ptr_v := ptr_v s + int n,
       dst := dst s @ packed_bytes f P (ptr_y s) (ptr_u s) (ptr_v s) n\<rparr>"

definition row_done :: "int \<Rightarrow> int \<Rightarrow> int \<Rightarrow> 8 word list \<Rightarrow> 'z pack_state_scheme \<Rightarrow> 'z pack_state_scheme" where
  "row_done dy du dv bs s =
     s\<lparr>ptr_y := ptr_y s + dy, ptr_u := ptr_u s + du, ptr_v := ptr_v s + dv, dst := dst s @ bs\<rparr>"

text \<open>The chroma row that output row \<open>h\<close> of an 8-bit frame is packed from.\<close>

definition chroma_line :: "AVFrame \<Rightarrow> int \<Rightarrow> int" where
  "chroma_line pic h =
     (if format pic = AV_PIX_FMT_YUV420P then
        (if interlaced_frame pic = 1 then 2 * (h div 4) + h mod 2 else h div 2)
      else h)"

text \<open>Output line \<open>r\<close> of a 10-bit and of an 8-bit frame.\<close>

definition frame_line_10 :: "AVCodecContext \<Rightarrow> AVFrame \<Rightarrow> nat \<Rightarrow> 8 word list" where
  "frame_line_10 avctx pic r =
     packed_bytes CLIP (cast_u16 (data pic 0), cast_u16 (data pic 1), cast_u16 (data pic 2))
       (int r * (linesize pic 0 sdiv 2)) (int r * (linesize pic 1 sdiv 2)) (int r * (linesize pic 2 sdiv 2))
       (nat (width avctx div 2))
     @ replicate (nat (line_padding avctx)) 0"

definition line_8 :: "AVCodecContext \<Rightarrow> AVFrame \<Rightarrow> 8 planes \<Rightarrow> int \<Rightarrow> 8 word list" where
  "line_8 avctx pic P h =
     packed_bytes up2 P (h * linesize pic 0) (chroma_line pic h * linesize pic 1)
       (chroma_line pic h * linesize pic 2) (nat (width avctx div 2))
     @ replicate (nat (line_padding avctx)) 0"

definition frame_line_8 :: "AVCodecContext \<Rightarrow> AVFrame \<Rightarrow> nat \<Rightarrow> 8 word list" where
  "frame_line_8 avctx pic r =
     packed_bytes up2 (data pic 0, data pic 1, data pic 2)
       (int r * linesize pic 0) (chroma_line pic (int r) * linesize pic 1) (chroma_line pic (int r) * linesize pic 2)
       (nat (width avctx div 2))
     @ replicate (nat (line_padding avctx)) 0"

text \<open>The invariant of the row loop of the 8-bit branch at the head of iteration \<open>h\<close>:
  where a chroma pointer \<open>p\<close> and its saved copy \<open>e\<close> stand, for a plane whose rows are
  \<open>L\<close> apart.\<close>

definition chroma_inv :: "AVFrame \<Rightarrow> int \<Rightarrow> int \<Rightarrow> int \<Rightarrow> int \<Rightarrow> bool" where
  "chroma_inv pic h p e L =
     (if format pic = AV_PIX_FMT_YUV420P then
        (if interlaced_frame pic = 1 then
           (h mod 4 = 0 \<longrightarrow> p = 2 * (h div 4) * L) \<and>
           (h mod 4 = 1 \<longrightarrow> p = (2 * (h div 4) + 1) * L \<and> e = 2 * (h div 4) * L) \<and>
           (h mod 4 = 2 \<longrightarrow> e = 2 * (h div 4) * L) \<and>
           (h mod 4 = 3 \<longrightarrow> p = (2 * (h div 4) + 1) * L)
         else
           (h mod 2 = 0 \<longrightarrow> p = (h div 2) * L) \<and>
           (h mod 2 = 1 \<longrightarrow> e = (h div 2) * L))
      else p = h * L)"

definition inv8 :: "AVFrame \<Rightarrow> int \<Rightarrow> enc8_state \<Rightarrow> bool" where
  "inv8 pic h s =
     (ptr_y s = h * linesize pic 0 \<and>
      chroma_inv pic h (ptr_u s) (u_even s) (linesize pic 1) \<and>
      chroma_inv pic h (ptr_v s) (v_even s) (linesize pic 2))"

text \<open>The planes of the example of the specification: \<open>Y = [100, 200, ..., 600]\<close>,
  \<open>U = [10, 20, 30]\<close>, \<open>V = [40, 50, 60]\<close>.\<close>

definition example_y :: "int \<Rightarrow> 16 word" where
  "example_y i = word_of_int (100 * (i + 1))"

definition example_u :: "int \<Rightarrow> 16 word" where
  "example_u i = word_of_int (10 * (i + 1))"

definition example_v :: "int \<Rightarrow> 16 word" where
  "example_v i = word_of_int (10 * (i + 4))"

text \<open>The stride in the words of the specification: \<open>ceil(width/48)*48 * 8 / 3\<close>.\<close>

definition stride_spec :: "int \<Rightarrow> int" where
  "stride_spec w = \<lceil>real_of_int w / 48\<rceil> * 48 * 8 div 3"

text \<open>Modelled from the spec: the life cycle of a codec (\<open>avcodec_open2\<close> and the encode
  call of libavcodec are not among the sources).  Setup runs once; a configuration error
  is fatal and no frame is processed; after a successful setup every frame is encoded
  with the context that setup returned.\<close>

definition encode_session ::
  "(AVCodecContext \<Rightarrow> int) \<Rightarrow> (int \<Rightarrow> int) \<Rightarrow> (AVPacketSideDataType \<Rightarrow> int \<Rightarrow> bool)
     \<Rightarrow> AVCodecContext \<Rightarrow> AVFrame list \<Rightarrow> error + (error + AVPacket) list" where
  "encode_session ff_guess_coded_bitrate ff_alloc_packet2 av_packet_new_side_data avctx frames =
     (case encode_init ff_guess_coded_bitrate avctx of
        Inl e \<Rightarrow> Inl e
      | Inr ctx \<Rightarrow> Inr (map (encode_frame ff_alloc_packet2 av_packet_new_side_data ctx) frames))"

text \<open>The largest value of a 32-bit \<open>int\<close>.\<close>

definition INT_MAX :: int where
  "INT_MAX = 2147483647"

text \<open>The side data of a frame can all be copied: for each of the five types that
  \<open>encode_frame\<close> copies, the frame has none, or an empty one, or the packet gives a
  buffer of its size.\<close>

definition side_data_fits :: "(AVPacketSideDataType \<Rightarrow> int \<Rightarrow> bool) \<Rightarrow> AVFrame \<Rightarrow> AVFrameSideDataType \<Rightarrow> AVPacketSideDataType \<Rightarrow> bool" where
  "side_data_fits new_side_data pic ftype ptype =
     (case side_data pic ftype of
        None \<Rightarrow> True
      | Some sd \<Rightarrow> sd_size sd = 0 \<or> new_side_data ptype (sd_size sd))"

definition side_data_ok :: "(AVPacketSideDataType \<Rightarrow> int \<Rightarrow> bool) \<Rightarrow> AVFrame \<Rightarrow> bool" where
  "side_data_ok new_side_data pic =
     (side_data_fits new_side_data pic AV_FRAME_DATA_A53_CC AV_PKT_DATA_A53_CC \<and>
      side_data_fits new_side_data pic AV_FRAME_DATA_AFD AV_PKT_DATA_AFD \<and>
      side_data_fits new_side_data pic AV_FRAME_DATA_BARDATA AV_PKT_DATA_BARDATA \<and>
      side_data_fits new_side_data pic AV_FRAME_DATA_PIPELINE_STATS AV_PKT_DATA_PIPELINE_STATS \<and>
      side_data_fits new_side_data pic AV_FRAME_DATA_SEI_UNREGISTERED AV_PKT_DATA_SEI_UNREGISTERED)"

text \<open>Example inputs: allocators that succeed, one that gives no side data, a bitrate
  guess, a context of a given
  width and height, and frames whose sample \<open>k\<close> of plane \<open>c\<close> is \<open>100 c + 10 k + 16\<close>
  (8-bit) with rows \<open>ls\<close> bytes apart; the frames carry closed captions of three bytes
  as side data.\<close>

definition alloc_ok :: "int \<Rightarrow> int" where
  "alloc_ok n = 0"

definition side_data_alloc_ok :: "AVPacketSideDataType \<Rightarrow> int \<Rightarrow> bool" where
  "side_data_alloc_ok t n = True"

definition side_data_alloc_fails :: "AVPacketSideDataType \<Rightarrow> int \<Rightarrow> bool" where
  "side_data_alloc_fails t n = False"

definition example_side_data :: "AVFrameSideDataType \<Rightarrow> AVFrameSideData option" where
  "example_side_data t =
     (if t = AV_FRAME_DATA_A53_CC then Some \<lparr>sd_data = [252, 148, 44], sd_size = 3\<rparr> else None)"

definition guess_zero :: "AVCodecContext \<Rightarrow> int" where
  "guess_zero avctx = 0"

definition example_avctx :: "int \<Rightarrow> int \<Rightarrow> AVCodecContext" where
  "example_avctx w h =
     \<lparr>width = w, height = h, priv_data = ff_v210enc_init, bits_per_coded_sample = 20, bit_rate = 0\<rparr>"

definition example_data :: "nat \<Rightarrow> int \<Rightarrow> 8 word" where
  "example_data c k = word_of_int (100 * int c + 10 * k + 16)"

definition example_linesize :: "nat \<Rightarrow> int" where
  "example_linesize c = (if c = 0 then 2 else 1)"

definition example_pic :: "AVPixelFormat \<Rightarrow> int \<Rightarrow> AVFrame" where
  "example_pic fmt il =
     \<lparr>format = fmt, interlaced_frame = il, linesize = example_linesize, data = example_data,
      pkt_pts = 0, side_data = example_side_data\<rparr>"

text \<open>A 10-bit example frame of width 2: sample \<open>k\<close> of plane \<open>c\<close> is \<open>16 + 2 k + 20 c\<close>,
  stored in two bytes, low byte first.\<close>

definition example_data_10 :: "nat \<Rightarrow> int \<Rightarrow> 8 word" where
  "example_data_10 c k = (if even k then word_of_int (16 + k + 20 * int c) else 0)"

definition example_linesize_10 :: "nat \<Rightarrow> int" where
  "example_linesize_10 c = (if c = 0 then 4 else 2)"

definition example_pic_10 :: "AVFrame" where
  "example_pic_10 =
     \<lparr>format = AV_PIX_FMT_YUV422P10, interlaced_frame = 0, linesize = example_linesize_10,
      data = example_data_10, pkt_pts = 0, side_data = example_side_data\<rparr>"



text \<open>For the proofs \<open>encode_frame\<close> is cut in two: the packet at the end of the packing
  loops (line 272), and the five copies of side data with the setting of the key flag
  that follow (lines 273 to 322).  Lemma \<open>encode_frame_eq\<close> puts the two together.\<close>

definition frame_packet :: "(AVPacketSideDataType \<Rightarrow> int \<Rightarrow> bool) \<Rightarrow> AVCodecContext \<Rightarrow> AVFrame \<Rightarrow> AVPacket" where
  "frame_packet nsd avctx pic =
        (let pkt = \<lparr>pkt_size = height avctx * stride avctx, pkt_data = [],
                    pkt_side_data = [], pkt_flags = 0\<rparr>;
             pkt = (if nsd AV_PKT_DATA_ORIG_PTS 8
                    then pkt\<lparr>pkt_side_data :=
                           pkt_side_data pkt @ [(AV_PKT_DATA_ORIG_PTS, store_int64 (pkt_pts pic))]\<rparr>
                    else pkt);
             pkt =
               (if format pic = AV_PIX_FMT_YUV422P10 then
                  (let P = (cast_u16 (data pic 0), cast_u16 (data pic 1), cast_u16 (data pic 2));
                       s = encode_rows_10 avctx pic P 0 \<lparr>ptr_y = 0, ptr_u = 0, ptr_v = 0, dst = []\<rparr>
                   in pkt\<lparr>pkt_data := dst s\<rparr>)
                else if format pic = AV_PIX_FMT_YUV422P \<or> format pic = AV_PIX_FMT_YUV420P then
                  (let P = (data pic 0, data pic 1, data pic 2);
                       s = encode_rows_8 avctx pic P 0
                             \<lparr>ptr_y = 0, ptr_u = 0, ptr_v = 0, dst = [], u_even = 0, v_even = 0\<rparr>
                   in pkt\<lparr>pkt_data := dst s\<rparr>)
                else pkt)
         in pkt)"

definition copy_all :: "(AVPacketSideDataType \<Rightarrow> int \<Rightarrow> bool) \<Rightarrow> AVFrame \<Rightarrow> AVPacket \<Rightarrow> error + AVPacket" where
  "copy_all nsd pic pkt =
          (case copy_side_data nsd pic
                  AV_FRAME_DATA_A53_CC AV_PKT_DATA_A53_CC pkt of
             Inl e \<Rightarrow> Inl e
           | Inr pkt \<Rightarrow>
           case copy_side_data nsd pic
                  AV_FRAME_DATA_AFD AV_PKT_DATA_AFD pkt of
             Inl e \<Rightarrow> Inl e
           | Inr pkt \<Rightarrow>
           case copy_side_data nsd pic
                  AV_FRAME_DATA_BARDATA AV_PKT_DATA_BARDATA pkt of
             Inl e \<Rightarrow> Inl e
           | Inr pkt \<Rightarrow>
           case copy_side_data nsd pic
                  AV_FRAME_DATA_PIPELINE_STATS AV_PKT_DATA_PIPELINE_STATS pkt of
             Inl e \<Rightarrow> Inl e
           | Inr pkt \<Rightarrow>
           case copy_side_data nsd pic
                  AV_FRAME_DATA_SEI_UNREGISTERED AV_PKT_DATA_SEI_UNREGISTERED pkt of
             Inl e \<Rightarrow> Inl e
           | Inr pkt \<Rightarrow> Inr (pkt\<lparr>pkt_flags := pkt_flags pkt OR AV_PKT_FLAG_KEY\<rparr>))"

section \<open>Lemmas\<close>

lemma AV_RL32_WL32: "AV_RL32 (AV_WL32 w) = w"
proof (rule bit_word_eqI)
  fix n :: nat
  assume "n < LENGTH(32)"
  then have n32: "n < 32"
    by simp
  consider "n < 8" | "8 \<le> n" "n < 16" | "16 \<le> n" "n < 24" | "24 \<le> n"
    by linarith
  then show "bit (AV_RL32 (AV_WL32 w)) n = bit w n"
    using n32 by cases (auto simp add: AV_RL32_def AV_WL32_def bit_simps)
qed

lemma field_tb:
  "field 0 (v210_word (take_bit 10 a) (take_bit 10 b) (take_bit 10 c)) = take_bit 10 a"
  "field 1 (v210_word (take_bit 10 a) (take_bit 10 b) (take_bit 10 c)) = take_bit 10 b"
  "field 2 (v210_word (take_bit 10 a) (take_bit 10 b) (take_bit 10 c)) = take_bit 10 c"
  unfolding field_def v210_word_def
  by (rule bit_eqI; auto simp add: bit_simps unsigned_take_bit_eq unsigned_drop_bit_eq uint_word_of_int_eq)+

lemma field_v210_word:
  assumes "0 \<le> a" "a < 1024" "0 \<le> b" "b < 1024" "0 \<le> c" "c < 1024"
  shows "field 0 (v210_word a b c) = a" "field (Suc 0) (v210_word a b c) = b" "field 2 (v210_word a b c) = c"
proof -
  have "take_bit 10 a = a" "take_bit 10 b = b" "take_bit 10 c = c"
    using assms by (simp_all add: take_bit_int_eq_self)
  then show "field 0 (v210_word a b c) = a" "field (Suc 0) (v210_word a b c) = b" "field 2 (v210_word a b c) = c"
    using field_tb [of a b c] by simp_all
qed

lemma v210_word_top:
  assumes "0 \<le> a" "a < 1024" "0 \<le> b" "b < 1024" "0 \<le> c" "c < 1024"
  shows "\<not> bit (v210_word a b c) 30" "\<not> bit (v210_word a b c) 31"
proof -
  have e: "take_bit 10 a = a" "take_bit 10 b = b" "take_bit 10 c = c"
    using assms by (simp_all add: take_bit_int_eq_self)
  have "\<not> bit (v210_word (take_bit 10 a) (take_bit 10 b) (take_bit 10 c)) 30"
       "\<not> bit (v210_word (take_bit 10 a) (take_bit 10 b) (take_bit 10 c)) 31"
    unfolding v210_word_def by (auto simp add: bit_simps)
  then show  "\<not> bit (v210_word a b c) 30" "\<not> bit (v210_word a b c) 31"
    by (simp_all add: e)
qed

declare pack_10_loop.simps [simp del] pack_8_loop.simps [simp del] tail_loop_10.simps [simp del]
  tail_loop_8.simps [simp del] encode_rows_10.simps [simp del] encode_rows_8.simps [simp del]

lemma wire_samples_0: "wire_samples P y u v 0 = []"
  by (simp add: wire_samples_def)

lemma wire_samples_Suc:
  "wire_samples P y u v (Suc n) =
     [uint (fst (snd P) u), uint (fst P y), uint (snd (snd P) v), uint (fst P (y + 1))]
     @ wire_samples P (y + 2) (u + 1) (v + 1) n"
proof -
  have "[0..<Suc n] = 0 # map Suc [0..<n]"
    by (simp add: upt_conv_Cons map_Suc_upt del: upt_Suc)
  then show ?thesis
    by (simp add: wire_samples_def comp_def algebra_simps del: upt_Suc)
qed

lemma wire_samples_add:
  "wire_samples P y u v (m + n) =
     wire_samples P y u v m @ wire_samples P (y + 2 * int m) (u + int m) (v + int m) n"
proof (induction m arbitrary: y u v)
  case 0
  show ?case by (simp add: wire_samples_0)
next
  case (Suc m)
  show ?case
    by (simp add: wire_samples_Suc Suc.IH algebra_simps)
qed

lemma length_wire_samples: "length (wire_samples P y u v n) = 4 * n"
  by (induction n arbitrary: y u v) (simp_all add: wire_samples_0 wire_samples_Suc)

lemma pack_words_append:
  "3 dvd length xs \<Longrightarrow> pack_words (xs @ ys) = pack_words xs @ pack_words ys"
proof (induction xs rule: pack_words.induct)
  case (1 a b c xs)
  from "1.prems" have "3 dvd length xs"
    by (simp add: dvd_def) presburger
  with "1.IH" show ?case
    by simp
qed (auto dest!: dvd_imp_le)

lemma packed_bytes_add:
  "3 dvd m \<Longrightarrow> packed_bytes f P y u v (m + n) =
     packed_bytes f P y u v m @ packed_bytes f P (y + 2 * int m) (u + int m) (v + int m) n"
  by (simp add: packed_bytes_def wire_samples_add pack_words_append length_wire_samples)

lemma packed_0: "packed f P 0 s = s"
  by (simp add: packed_def packed_bytes_def wire_samples_0)

lemma packed_add: "3 dvd m \<Longrightarrow> packed f P n (packed f P m s) = packed f P (m + n) s"
  by (simp add: packed_def packed_bytes_add algebra_simps)

lemma v210_word_or:
  "word_of_int a OR word_of_int (push_bit 10 b OR push_bit 20 c) = v210_word a b c"
  by (simp add: v210_word_def of_int_or_eq)

lemma v210_word_or8:
  "word_of_int (push_bit 2 (CLIP8 a)) OR word_of_int (push_bit 12 (CLIP8 b) OR push_bit 22 (CLIP8 c))
     = v210_word (up2 a) (up2 b) (up2 c)"
  by (simp add: v210_word_def of_int_or_eq up2_def push_bit_push_bit)

lemma v210_word_or0:
  "word_of_int (a OR push_bit 10 b) = v210_word a b 0"
  "word_of_int (push_bit 2 (CLIP8 a) OR push_bit 12 (CLIP8 b)) = v210_word (up2 a) (up2 b) 0"
  "v210_word a 0 0 = word_of_int a"
  by (simp_all add: v210_word_def up2_def push_bit_push_bit)

lemma v210_word_up2:
  "word_of_int (up2 a) OR word_of_int (push_bit 12 (CLIP8 b) OR push_bit 22 (CLIP8 c))
     = v210_word (up2 a) (up2 b) (up2 c)"
  "word_of_int (up2 a OR push_bit 12 (CLIP8 b)) = v210_word (up2 a) (up2 b) 0"
  by (simp_all add: v210_word_def of_int_or_eq up2_def push_bit_push_bit)

lemma wire_samples_1:
  "wire_samples P y u v (Suc 0) =
     [uint (fst (snd P) u), uint (fst P y), uint (snd (snd P) v), uint (fst P (y + 1))]"
  by (simp add: wire_samples_Suc wire_samples_0)

lemma wire_samples_2:
  "wire_samples P y u v 2 =
     [uint (fst (snd P) u), uint (fst P y), uint (snd (snd P) v), uint (fst P (y + 1)),
      uint (fst (snd P) (u + 1)), uint (fst P (y + 2)), uint (snd (snd P) (v + 1)), uint (fst P (y + 3))]"
  by (simp add: numeral_2_eq_2 wire_samples_Suc wire_samples_0 ac_simps)

lemma wire_samples_3:
  "wire_samples P y u v 3 =
     [uint (fst (snd P) u), uint (fst P y), uint (snd (snd P) v), uint (fst P (y + 1)),
      uint (fst (snd P) (u + 1)), uint (fst P (y + 2)), uint (snd (snd P) (v + 1)), uint (fst P (y + 3)),
      uint (fst (snd P) (u + 2)), uint (fst P (y + 4)), uint (snd (snd P) (v + 2)), uint (fst P (y + 5))]"
  by (simp add: numeral_3_eq_3 wire_samples_Suc wire_samples_0 ac_simps)

lemma WRITE_PIXELS_eq:
  "WRITE_PIXELS P a b c s =
     (case deref_inc P a s of (va, s1) \<Rightarrow>
        case deref_inc P b s1 of (vb, s2) \<Rightarrow>
          case deref_inc P c s2 of (vc, s3) \<Rightarrow>
            s3\<lparr>dst := dst s3 @ AV_WL32 (v210_word (CLIP va) (CLIP vb) (CLIP vc))\<rparr>)"
  unfolding WRITE_PIXELS_def Let_def v210_word_or ..

lemma WRITE_PIXELS8_eq:
  "WRITE_PIXELS8 P a b c s =
     (case deref_inc P a s of (va, s1) \<Rightarrow>
        case deref_inc P b s1 of (vb, s2) \<Rightarrow>
          case deref_inc P c s2 of (vc, s3) \<Rightarrow>
            s3\<lparr>dst := dst s3 @ AV_WL32 (v210_word (up2 va) (up2 vb) (up2 vc))\<rparr>)"
  unfolding WRITE_PIXELS8_def Let_def v210_word_or8 ..

lemma group_10:
  "WRITE_PIXELS P Arg_y Arg_v Arg_y (WRITE_PIXELS P Arg_v Arg_y Arg_u
     (WRITE_PIXELS P Arg_y Arg_u Arg_y (WRITE_PIXELS P Arg_u Arg_y Arg_v s))) = packed CLIP P 3 s"
  by (cases P)
     (simp add: WRITE_PIXELS_eq packed_def packed_bytes_def wire_samples_3 ac_simps)

lemma group_8:
  "WRITE_PIXELS8 P Arg_y Arg_v Arg_y (WRITE_PIXELS8 P Arg_v Arg_y Arg_u
     (WRITE_PIXELS8 P Arg_y Arg_u Arg_y (WRITE_PIXELS8 P Arg_u Arg_y Arg_v s))) = packed up2 P 3 s"
  by (cases P)
     (simp add: WRITE_PIXELS8_eq packed_def packed_bytes_def wire_samples_3 ac_simps)

lemma pack_10_loop_eq:
  "pack_10_loop P wd i s = packed CLIP P (3 * nat ((wd - i) div 6)) s"
proof (induction "nat ((wd - i) div 6)" arbitrary: i s)
  case 0
  then have "\<not> i < wd - 5"
    by simp
  with 0 show ?case
    by (subst pack_10_loop.simps) (simp add: packed_0)
next
  case (Suc k)
  from Suc.hyps(2) have lt: "i < wd - 5" and k: "k = nat ((wd - (i + 6)) div 6)"
    by simp_all
  have n: "nat ((wd - i) div 6) = Suc k"
    using Suc.hyps(2) by simp
  have "pack_10_loop P wd i s = pack_10_loop P wd (i + 6) (packed CLIP P 3 s)"
    using lt by (subst pack_10_loop.simps) (simp add: Let_def group_10)
  also have "\<dots> = packed CLIP P (3 * k) (packed CLIP P 3 s)"
    using Suc.hyps(1) [OF k] k by simp
  also have "\<dots> = packed CLIP P (3 * Suc k) s"
    by (simp add: packed_add)
  finally show ?case
    by (simp only: n)
qed

lemma pack_8_loop_eq:
  "pack_8_loop P wd i s = packed up2 P (6 * nat ((wd - i) div 12)) s"
proof (induction "nat ((wd - i) div 12)" arbitrary: i s)
  case 0
  then have "\<not> i < wd - 11"
    by simp
  with 0 show ?case
    by (subst pack_8_loop.simps) (simp add: packed_0)
next
  case (Suc k)
  from Suc.hyps(2) have lt: "i < wd - 11" and k: "k = nat ((wd - (i + 12)) div 12)"
    by simp_all
  have n: "nat ((wd - i) div 12) = Suc k"
    using Suc.hyps(2) by simp
  have "pack_8_loop P wd i s = pack_8_loop P wd (i + 12) (packed up2 P 3 (packed up2 P 3 s))"
    using lt by (subst pack_8_loop.simps) (simp add: Let_def group_8)
  also have "\<dots> = pack_8_loop P wd (i + 12) (packed up2 P 6 s)"
    by (simp add: packed_add)
  also have "\<dots> = packed up2 P (6 * k) (packed up2 P 6 s)"
    using Suc.hyps(1) [OF k] k by simp
  also have "\<dots> = packed up2 P (6 * Suc k) s"
    by (simp add: packed_add)
  finally show ?case
    by (simp only: n)
qed

lemma tail_loop_10_eq:
  "tail_loop_10 P wd w s =
     (w + 6 * int (nat ((wd - w) div 6)), packed CLIP P (3 * nat ((wd - w) div 6)) s)"
proof (induction "nat ((wd - w) div 6)" arbitrary: w s)
  case 0
  then have "\<not> w < wd - 5"
    by simp
  with 0 show ?case
    by (subst tail_loop_10.simps) (simp add: packed_0)
next
  case (Suc k)
  from Suc.hyps(2) have lt: "w < wd - 5" and k: "k = nat ((wd - (w + 6)) div 6)"
    by simp_all
  have n: "nat ((wd - w) div 6) = Suc k"
    using Suc.hyps(2) by simp
  have "tail_loop_10 P wd w s = tail_loop_10 P wd (w + 6) (packed CLIP P 3 s)"
    using lt by (subst tail_loop_10.simps) (simp add: Let_def group_10)
  also have "\<dots> = (w + 6 + 6 * int k, packed CLIP P (3 * k) (packed CLIP P 3 s))"
    using Suc.hyps(1) [OF k] k by simp
  also have "\<dots> = (w + 6 * int (Suc k), packed CLIP P (3 * Suc k) s)"
    by (simp add: packed_add)
  finally show ?case
    by (simp only: n)
qed

lemma tail_loop_8_eq:
  "tail_loop_8 P wd w s =
     (w + 6 * int (nat ((wd - w) div 6)), packed up2 P (3 * nat ((wd - w) div 6)) s)"
proof (induction "nat ((wd - w) div 6)" arbitrary: w s)
  case 0
  then have "\<not> w < wd - 5"
    by simp
  with 0 show ?case
    by (subst tail_loop_8.simps) (simp add: packed_0)
next
  case (Suc k)
  from Suc.hyps(2) have lt: "w < wd - 5" and k: "k = nat ((wd - (w + 6)) div 6)"
    by simp_all
  have n: "nat ((wd - w) div 6) = Suc k"
    using Suc.hyps(2) by simp
  have "tail_loop_8 P wd w s = tail_loop_8 P wd (w + 6) (packed up2 P 3 s)"
    using lt by (subst tail_loop_8.simps) (simp add: Let_def group_8)
  also have "\<dots> = (w + 6 + 6 * int k, packed up2 P (3 * k) (packed up2 P 3 s))"
    using Suc.hyps(1) [OF k] k by simp
  also have "\<dots> = (w + 6 * int (Suc k), packed up2 P (3 * Suc k) s)"
    by (simp add: packed_add)
  finally show ?case
    by (simp only: n)
qed

lemma encode_tail_10_eq:
  assumes "wd - w = 0 \<or> wd - w = 2 \<or> wd - w = 4"
  shows "encode_tail_10 val0 P wd w s = packed CLIP P (nat ((wd - w) div 2)) s"
proof -
  consider "w = wd" | "w = wd - 2" | "w = wd - 4"
    using assms by linarith
  then show ?thesis
  proof cases
    case 1
    then show ?thesis
      by (simp add: encode_tail_10_def packed_0)
  next
    case 2
    then show ?thesis
      by (cases P)
         (simp add: encode_tail_10_def Let_def WRITE_PIXELS_eq packed_def packed_bytes_def wire_samples_1
            v210_word_or v210_word_or0 ac_simps)
  next
    case 3
    then show ?thesis
      by (cases P)
         (simp add: encode_tail_10_def Let_def WRITE_PIXELS_eq packed_def packed_bytes_def wire_samples_2
            v210_word_or v210_word_or0 ac_simps)
  qed
qed

lemma encode_tail_8_eq:
  assumes "wd - w = 0 \<or> wd - w = 2 \<or> wd - w = 4"
  shows "encode_tail_8 val0 P wd w s = packed up2 P (nat ((wd - w) div 2)) s"
proof -
  consider "w = wd" | "w = wd - 2" | "w = wd - 4"
    using assms by linarith
  then show ?thesis
  proof cases
    case 1
    then show ?thesis
      by (simp add: encode_tail_8_def packed_0)
  next
    case 2
    then show ?thesis
      by (cases P)
         (simp add: encode_tail_8_def Let_def WRITE_PIXELS8_eq packed_def packed_bytes_def wire_samples_1
            v210_word_up2 v210_word_or0 up2_def [symmetric] ac_simps)
  next
    case 3
    then show ?thesis
      by (cases P)
         (simp add: encode_tail_8_def Let_def WRITE_PIXELS8_eq packed_def packed_bytes_def wire_samples_2
            v210_word_up2 v210_word_or0 up2_def [symmetric] ac_simps)
  qed
qed

lemma sdiv_nonneg: "0 \<le> a \<Longrightarrow> 0 < b \<Longrightarrow> a sdiv b = a div (b::int)"
  by (simp add: signed_divide_int_def sgn_if)

lemma even_width_cases:
  assumes "0 \<le> wd" "even (wd::int)"
  obtains k r :: nat where "wd = 2 * int (3 * k + r)" "r < 3"
proof -
  from assms obtain n :: nat where n: "wd = 2 * int n"
    by (metis evenE nonneg_int_cases zero_le_mult_iff zero_le_numeral not_numeral_le_zero)
  have "wd = 2 * int (3 * (n div 3) + n mod 3)" "n mod 3 < 3"
    using n by simp_all
  then show thesis
    by (rule that)
qed

lemma encode_row_10_eq:
  assumes ctx: "priv_data avctx = ff_v210enc_init"
    and wd: "0 \<le> width avctx" "even (width avctx)"
  shows "encode_row_10 avctx pic P s =
     row_done (linesize pic 0 sdiv 2) (linesize pic 1 sdiv 2) (linesize pic 2 sdiv 2)
       (packed_bytes CLIP P (ptr_y s) (ptr_u s) (ptr_v s) (nat (width avctx div 2))
          @ replicate (nat (line_padding avctx)) 0) s"
proof -
  from wd obtain k r :: nat where kr: "width avctx = 2 * int (3 * k + r)" "r < 3"
    by (rule even_width_cases)
  have W: "width avctx = 6 * int k + 2 * int r"
    using kr by simp
  have sd6: "(6 * int k + 2 * int r) sdiv 6 * 6 = 6 * int k"
    using kr(2) by (simp add: sdiv_nonneg)
  have sd2: "(6 * int k + 2 * int r) sdiv 2 = 3 * int k + int r"
    by (simp add: sdiv_nonneg)
  have d2: "nat (3 * int k + int r) = 3 * k + r"
    by simp
  have tl: "tail_loop_10 P (6 * int k + 2 * int r) (6 * int k) t = (6 * int k, t)" for t
    using kr(2) by (simp add: tail_loop_10_eq packed_0)
  have "r = 0 \<or> r = 1 \<or> r = 2"
    using kr(2) by linarith
  then have tail: "encode_tail_10 0 P (6 * int k + 2 * int r) (6 * int k) t = packed CLIP P r t" for t
    by (subst encode_tail_10_eq) auto
  have bulk: "dst (v210_planar_pack_10_c P y u v (6 * int k)) = packed_bytes CLIP P y u v (3 * k)" for y u v
    by (simp add: v210_planar_pack_10_c_def pack_10_loop_eq packed_def)
  have db: "drop_bit (Suc 0) (6 * int k) = 3 * int k"
    by (simp add: drop_bit_eq_div)
  have sp: "packed_bytes CLIP P y u v (3 * k + r) =
      packed_bytes CLIP P y u v (3 * k) @ packed_bytes CLIP P (y + 6 * int k) (u + 3 * int k) (v + 3 * int k) r" for y u v
    using packed_bytes_add [of "3 * k" CLIP P y u v r] by simp
  show ?thesis
    unfolding encode_row_10_def Let_def
    by (simp add: ctx ff_v210enc_init_def W sd6 sd2 d2 tl tail bulk db sp packed_def row_done_def)
qed

lemma even_width_cases12:
  assumes "0 \<le> wd" "even (wd::int)"
  obtains q b r :: nat where "wd = 2 * int (6 * q + 3 * b + r)" "b < 2" "r < 3"
proof -
  from assms obtain k r :: nat where kr: "wd = 2 * int (3 * k + r)" "r < 3"
    by (rule even_width_cases)
  have "wd = 2 * int (6 * (k div 2) + 3 * (k mod 2) + r)" "k mod 2 < 2"
    using kr by simp_all presburger
  then show thesis
    using kr(2) by (rule that)
qed

lemma encode_row_8_eq:
  assumes ctx: "priv_data avctx = ff_v210enc_init"
    and wd: "0 \<le> width avctx" "even (width avctx)"
  shows "encode_row_8 avctx pic P h s =
     row_done (linesize pic 0) (linesize pic 1) (linesize pic 2)
       (packed_bytes up2 P (ptr_y s) (ptr_u (select_chroma pic h s)) (ptr_v (select_chroma pic h s))
          (nat (width avctx div 2))
          @ replicate (nat (line_padding avctx)) 0) (select_chroma pic h s)"
proof -
  from wd obtain q b r :: nat where qbr: "width avctx = 2 * int (6 * q + 3 * b + r)" "b < 2" "r < 3"
    by (rule even_width_cases12)
  define t where "t = select_chroma pic h s"
  have ty: "ptr_y t = ptr_y s"
    by (simp add: t_def select_chroma_def)
  have W: "width avctx = 12 * int q + 6 * int b + 2 * int r"
    using qbr by simp
  have sd12: "(12 * int q + 6 * int b + 2 * int r) sdiv 12 * 12 = 12 * int q"
    using qbr(2,3) by (simp add: sdiv_nonneg)
  have sd2: "(12 * int q + 6 * int b + 2 * int r) sdiv 2 = 6 * int q + 3 * int b + int r"
    by (simp add: sdiv_nonneg)
  have d2: "nat (6 * int q + 3 * int b + int r) = 6 * q + 3 * b + r"
    by simp
  have "nat ((6 * int b + 2 * int r) div 6) = b"
    using qbr(2,3) by simp
  then have tl: "tail_loop_8 P (12 * int q + 6 * int b + 2 * int r) (12 * int q) x
      = (12 * int q + 6 * int b, packed up2 P (3 * b) x)" for x
    by (simp add: tail_loop_8_eq)
  have "r = 0 \<or> r = 1 \<or> r = 2"
    using qbr(3) by linarith
  then have tail: "encode_tail_8 0 P (12 * int q + 6 * int b + 2 * int r) (12 * int q + 6 * int b) x
      = packed up2 P r x" for x
    by (subst encode_tail_8_eq) auto
  have bulk: "dst (v210_planar_pack_8_c P y u v (12 * int q)) = packed_bytes up2 P y u v (6 * q)" for y u v
    by (simp add: v210_planar_pack_8_c_def pack_8_loop_eq packed_def)
  have db: "drop_bit (Suc 0) (12 * int q) = 6 * int q"
    by (simp add: drop_bit_eq_div)
  have sp: "packed_bytes up2 P y u v (6 * q + 3 * b + r) =
      packed_bytes up2 P y u v (6 * q)
      @ packed_bytes up2 P (y + 12 * int q) (u + 6 * int q) (v + 6 * int q) (3 * b)
      @ packed_bytes up2 P (y + 12 * int q + 6 * int b) (u + 6 * int q + 3 * int b) (v + 6 * int q + 3 * int b) r" for y u v
    using packed_bytes_add [of "6 * q" up2 P y u v "3 * b + r"]
      packed_bytes_add [of "3 * b" up2 P "y + 12 * int q" "u + 6 * int q" "v + 6 * int q" r]
    by (simp add: add.assoc)
  show ?thesis
    unfolding encode_row_8_def Let_def t_def [symmetric]
    by (simp add: ctx ff_v210enc_init_def W sd12 sd2 d2 tl tail bulk db sp packed_def row_done_def ty)
qed

lemma upt_0_Suc_shift: "[0..<Suc n] = 0 # map Suc [0..<n]"
  by (simp add: upt_conv_Cons map_Suc_upt del: upt_Suc)

lemma encode_rows_10_dst:
  assumes ctx: "priv_data avctx = ff_v210enc_init"
    and wd: "0 \<le> width avctx" "even (width avctx)"
  shows "dst (encode_rows_10 avctx pic P h s) =
     dst s @ concat (map (\<lambda>j.
         packed_bytes CLIP P (ptr_y s + int j * (linesize pic 0 sdiv 2))
           (ptr_u s + int j * (linesize pic 1 sdiv 2)) (ptr_v s + int j * (linesize pic 2 sdiv 2))
           (nat (width avctx div 2))
         @ replicate (nat (line_padding avctx)) 0) [0..<nat (height avctx - h)])"
proof (induction "nat (height avctx - h)" arbitrary: h s)
  case 0
  then have "\<not> h < height avctx"
    by simp
  with 0 show ?case
    by (subst encode_rows_10.simps) simp
next
  case (Suc n)
  from Suc.hyps(2) have lt: "h < height avctx" and n: "n = nat (height avctx - (h + 1))"
    by simp_all
  have m: "nat (height avctx - h) = Suc n"
    using Suc.hyps(2) by simp
  define s1 where "s1 = encode_row_10 avctx pic P s"
  have "encode_rows_10 avctx pic P h s = encode_rows_10 avctx pic P (h + 1) s1"
    using lt unfolding s1_def by (subst encode_rows_10.simps) simp
  also have "dst \<dots> = dst s1 @ concat (map (\<lambda>j.
         packed_bytes CLIP P (ptr_y s1 + int j * (linesize pic 0 sdiv 2))
           (ptr_u s1 + int j * (linesize pic 1 sdiv 2)) (ptr_v s1 + int j * (linesize pic 2 sdiv 2))
           (nat (width avctx div 2))
         @ replicate (nat (line_padding avctx)) 0) [0..<n])"
    using Suc.hyps(1) [OF n, of s1] by (simp only: n [symmetric])
  finally show ?case
    unfolding m upt_0_Suc_shift s1_def
    by (simp add: encode_row_10_eq [OF ctx wd] row_done_def comp_def algebra_simps del: upt_Suc)
qed

lemma mod4_cases:
  fixes h :: int
  obtains "h mod 4 = 0" "(h + 1) mod 4 = 1" "(h + 1) div 4 = h div 4" "h mod 2 = 0"
  | "h mod 4 = 1" "(h + 1) mod 4 = 2" "(h + 1) div 4 = h div 4" "h mod 2 = 1"
  | "h mod 4 = 2" "(h + 1) mod 4 = 3" "(h + 1) div 4 = h div 4" "h mod 2 = 0"
  | "h mod 4 = 3" "(h + 1) mod 4 = 0" "(h + 1) div 4 = h div 4 + 1" "h mod 2 = 1"
proof -
  have "h mod 4 = 0 \<or> h mod 4 = 1 \<or> h mod 4 = 2 \<or> h mod 4 = 3"
    by presburger
  then consider "h mod 4 = 0" | "h mod 4 = 1" | "h mod 4 = 2" | "h mod 4 = 3"
    by blast
  then show thesis
  proof cases
    case 1
    then have "(h + 1) mod 4 = 1" "(h + 1) div 4 = h div 4" "h mod 2 = 0"
      by presburger+
    with 1 show thesis by (rule that(1))
  next
    case 2
    then have "(h + 1) mod 4 = 2" "(h + 1) div 4 = h div 4" "h mod 2 = 1"
      by presburger+
    with 2 show thesis by (rule that(2))
  next
    case 3
    then have "(h + 1) mod 4 = 3" "(h + 1) div 4 = h div 4" "h mod 2 = 0"
      by presburger+
    with 3 show thesis by (rule that(3))
  next
    case 4
    then have "(h + 1) mod 4 = 0" "(h + 1) div 4 = h div 4 + 1" "h mod 2 = 1"
      by presburger+
    with 4 show thesis by (rule that(4))
  qed
qed

lemma mod2_cases:
  fixes h :: int
  obtains "h mod 2 = 0" "(h + 1) mod 2 = 1" "(h + 1) div 2 = h div 2"
  | "h mod 2 = 1" "(h + 1) mod 2 = 0" "(h + 1) div 2 = h div 2 + 1"
proof -
  have "h mod 2 = 0 \<or> h mod 2 = 1"
    by presburger
  then consider "h mod 2 = 0" | "h mod 2 = 1"
    by blast
  then show thesis
  proof cases
    case 1
    then have "(h + 1) mod 2 = 1" "(h + 1) div 2 = h div 2"
      by presburger+
    with 1 show thesis by (rule that(1))
  next
    case 2
    then have "(h + 1) mod 2 = 0" "(h + 1) div 2 = h div 2 + 1"
      by presburger+
    with 2 show thesis by (rule that(2))
  qed
qed

lemma select_chroma_u:
  assumes "chroma_inv pic h (ptr_u s) (u_even s) L"
  shows "ptr_u (select_chroma pic h s) = chroma_line pic h * L
     \<and> chroma_inv pic (h + 1) (ptr_u (select_chroma pic h s) + L) (u_even (select_chroma pic h s)) L"
proof -
  consider (other) "format pic \<noteq> AV_PIX_FMT_YUV420P"
    | (inter) "format pic = AV_PIX_FMT_YUV420P" "interlaced_frame pic = 1"
    | (prog) "format pic = AV_PIX_FMT_YUV420P" "interlaced_frame pic \<noteq> 1"
    by blast
  then show ?thesis
  proof cases
    case other
    with assms show ?thesis
      by (simp add: chroma_inv_def select_chroma_def chroma_line_def algebra_simps)
  next
    case inter
    show ?thesis
      using assms by (cases h rule: mod4_cases)
        (simp_all add: inter chroma_inv_def select_chroma_def chroma_line_def algebra_simps)
  next
    case prog
    show ?thesis
      using assms by (cases h rule: mod2_cases)
        (simp_all add: prog chroma_inv_def select_chroma_def chroma_line_def algebra_simps)
  qed
qed

lemma select_chroma_v:
  assumes "chroma_inv pic h (ptr_v s) (v_even s) L"
  shows "ptr_v (select_chroma pic h s) = chroma_line pic h * L
     \<and> chroma_inv pic (h + 1) (ptr_v (select_chroma pic h s) + L) (v_even (select_chroma pic h s)) L"
proof -
  consider (other) "format pic \<noteq> AV_PIX_FMT_YUV420P"
    | (inter) "format pic = AV_PIX_FMT_YUV420P" "interlaced_frame pic = 1"
    | (prog) "format pic = AV_PIX_FMT_YUV420P" "interlaced_frame pic \<noteq> 1"
    by blast
  then show ?thesis
  proof cases
    case other
    with assms show ?thesis
      by (simp add: chroma_inv_def select_chroma_def chroma_line_def algebra_simps)
  next
    case inter
    show ?thesis
      using assms by (cases h rule: mod4_cases)
        (simp_all add: inter chroma_inv_def select_chroma_def chroma_line_def algebra_simps)
  next
    case prog
    show ?thesis
      using assms by (cases h rule: mod2_cases)
        (simp_all add: prog chroma_inv_def select_chroma_def chroma_line_def algebra_simps)
  qed
qed

lemma encode_row_8_inv:
  assumes ctx: "priv_data avctx = ff_v210enc_init"
    and wd: "0 \<le> width avctx" "even (width avctx)"
    and inv: "inv8 pic h s"
  shows "dst (encode_row_8 avctx pic P h s) = dst s @ line_8 avctx pic P h"
    and "inv8 pic (h + 1) (encode_row_8 avctx pic P h s)"
proof -
  define t where "t = select_chroma pic h s"
  have y: "ptr_y s = h * linesize pic 0"
    using inv by (simp add: inv8_def)
  have cu: "chroma_inv pic h (ptr_u s) (u_even s) (linesize pic 1)"
    and cv: "chroma_inv pic h (ptr_v s) (v_even s) (linesize pic 2)"
    using inv by (simp_all add: inv8_def)
  have u: "ptr_u t = chroma_line pic h * linesize pic 1"
      "chroma_inv pic (h + 1) (ptr_u t + linesize pic 1) (u_even t) (linesize pic 1)"
    unfolding t_def
    by (rule select_chroma_u [OF cu, THEN conjunct1], rule select_chroma_u [OF cu, THEN conjunct2])
  have v: "ptr_v t = chroma_line pic h * linesize pic 2"
      "chroma_inv pic (h + 1) (ptr_v t + linesize pic 2) (v_even t) (linesize pic 2)"
    unfolding t_def
    by (rule select_chroma_v [OF cv, THEN conjunct1], rule select_chroma_v [OF cv, THEN conjunct2])
  have ty: "ptr_y t = ptr_y s" "dst t = dst s"
    by (simp_all add: t_def select_chroma_def)
  have row: "encode_row_8 avctx pic P h s =
     row_done (linesize pic 0) (linesize pic 1) (linesize pic 2) (line_8 avctx pic P h) t"
    by (simp add: encode_row_8_eq [OF ctx wd] t_def [symmetric] u v y line_8_def)
  show "dst (encode_row_8 avctx pic P h s) = dst s @ line_8 avctx pic P h"
    by (simp add: row row_done_def ty)
  show "inv8 pic (h + 1) (encode_row_8 avctx pic P h s)"
    using u(2) v(2) by (simp add: row row_done_def inv8_def ty y algebra_simps)
qed

lemma encode_rows_8_dst:
  assumes ctx: "priv_data avctx = ff_v210enc_init"
    and wd: "0 \<le> width avctx" "even (width avctx)"
  shows "inv8 pic h s \<Longrightarrow> dst (encode_rows_8 avctx pic P h s) =
     dst s @ concat (map (\<lambda>j. line_8 avctx pic P (h + int j)) [0..<nat (height avctx - h)])"
proof (induction "nat (height avctx - h)" arbitrary: h s)
  case 0
  then have "\<not> h < height avctx"
    by simp
  with 0 show ?case
    by (subst encode_rows_8.simps) simp
next
  case (Suc n)
  from Suc.hyps(2) have lt: "h < height avctx" and n: "n = nat (height avctx - (h + 1))"
    by simp_all
  have m: "nat (height avctx - h) = Suc n"
    using Suc.hyps(2) by simp
  define s1 where "s1 = encode_row_8 avctx pic P h s"
  have s1: "dst s1 = dst s @ line_8 avctx pic P h" "inv8 pic (h + 1) s1"
    unfolding s1_def using encode_row_8_inv [OF ctx wd Suc.prems] by simp_all
  have "encode_rows_8 avctx pic P h s = encode_rows_8 avctx pic P (h + 1) s1"
    using lt unfolding s1_def by (subst encode_rows_8.simps) simp
  also have "dst \<dots> = dst s1 @ concat (map (\<lambda>j. line_8 avctx pic P (h + 1 + int j)) [0..<n])"
    using Suc.hyps(1) [OF n s1(2)] by (simp only: n [symmetric])
  finally show ?case
    unfolding m upt_0_Suc_shift
    by (simp add: s1(1) comp_def add.assoc add.commute [of 1] del: upt_Suc)
qed

lemma length_AV_WL32: "length (AV_WL32 w) = 4"
  by (simp add: AV_WL32_def)

lemma length_pack_words: "length (pack_words xs) = (length xs + 2) div 3"
  by (induction xs rule: pack_words.induct) simp_all

lemma length_concat_WL32: "length (concat (map AV_WL32 ws)) = 4 * length ws"
  by (induction ws) (simp_all add: length_AV_WL32)

lemma length_packed_bytes: "length (packed_bytes f P y u v n) = 4 * ((4 * n + 2) div 3)"
  by (simp add: packed_bytes_def length_concat_WL32 length_pack_words length_wire_samples)

lemma out_word_0: "out_word (AV_WL32 w @ bs) 0 = w"
  by (simp add: out_word_def AV_RL32_WL32 length_AV_WL32)

lemma out_word_Suc: "out_word (AV_WL32 w @ bs) (Suc k) = out_word bs k"
  by (simp add: out_word_def length_AV_WL32)

lemma out_word_concat:
  "k < length ws \<Longrightarrow> out_word (concat (map AV_WL32 ws) @ rest) k = ws ! k"
proof (induction ws arbitrary: k)
  case Nil
  then show ?case by simp
next
  case (Cons w ws)
  then show ?case
    by (cases k) (simp_all add: out_word_0 out_word_Suc)
qed

lemma field_pack_words:
  assumes "\<forall>x\<in>set cs. 0 \<le> x \<and> x < 1024" "i < length cs"
  shows "field (i mod 3) (pack_words cs ! (i div 3)) = cs ! i"
  using assms
proof (induction cs arbitrary: i rule: pack_words.induct)
  case (1 a b c xs)
  show ?case
  proof (cases "i < 3")
    case True
    then have "i = 0 \<or> i = 1 \<or> i = 2"
      by linarith
    with "1.prems"(1) show ?thesis
      by (auto simp add: field_v210_word)
  next
    case False
    then obtain i' where i: "i = i' + 3"
      by (metis add.commute le_Suc_ex not_less)
    with "1.prems" have "field (i' mod 3) (pack_words xs ! (i' div 3)) = xs ! i'"
      by (intro "1.IH") simp_all
    then show ?thesis
      by (simp add: i)
  qed
next
  case (2 a b)
  then have "i = 0 \<or> i = 1"
    by (simp add: less_Suc_eq)
  with "2.prems"(1) show ?case
    by (auto simp add: field_v210_word)
next
  case (3 a)
  then show ?case
    by (simp add: field_v210_word)
next
  case 4
  then show ?case by simp
qed

lemma stride_eq: "0 \<le> width avctx \<Longrightarrow> stride avctx = 128 * ((width avctx + 47) div 48)"
  by (simp add: stride_def aligned_width_def sdiv_nonneg)

lemma line_padding_eq:
  assumes "width avctx = 2 * int n"
  shows "line_padding avctx = stride avctx - 4 * int ((4 * n + 2) div 3)"
    and "4 * int ((4 * n + 2) div 3) \<le> stride avctx"
proof -
  have "(16 * int n + 11) div 12 = (4 * int n + 2) div 3"
    by presburger
  then have a: "(16 * int n + 11) sdiv 12 = int ((4 * n + 2) div 3)"
    by (simp add: sdiv_nonneg zdiv_int)
  show "line_padding avctx = stride avctx - 4 * int ((4 * n + 2) div 3)"
    by (simp add: line_padding_def assms a)
  have "stride avctx = 128 * ((2 * int n + 47) div 48)"
    using stride_eq [of avctx] assms by simp
  then show "4 * int ((4 * n + 2) div 3) \<le> stride avctx"
    by (simp add: zdiv_int)
qed

lemma length_line:
  assumes "0 \<le> width avctx" "even (width avctx)"
  shows "length (packed_bytes f P y u v (nat (width avctx div 2)) @ replicate (nat (line_padding avctx)) 0)
     = nat (stride avctx)"
proof -
  from assms obtain n :: nat where n: "width avctx = 2 * int n"
    by (metis evenE nonneg_int_cases zero_le_mult_iff zero_le_numeral not_numeral_le_zero)
  show ?thesis
    using line_padding_eq [OF n] by (simp add: length_packed_bytes n nat_diff_distrib')
qed

lemma length_concat_lines:
  "(\<And>i. i < n \<Longrightarrow> length (f i) = S) \<Longrightarrow> length (concat (map f [0..<n])) = n * S"
  by (induction n) simp_all

lemma take_drop_concat_lines:
  assumes "\<And>i. i < n \<Longrightarrow> length (f i) = S" "r < n"
  shows "take S (drop (r * S) (concat (map f [0..<n]))) = f r"
  using assms
proof (induction n)
  case 0
  then show ?case by simp
next
  case (Suc n)
  have len: "length (concat (map f [0..<n])) = n * S"
    using Suc.prems(1) by (intro length_concat_lines) simp
  show ?case
  proof (cases "r < n")
    case True
    then have "Suc r \<le> n"
      by simp
    then have "Suc r * S \<le> n * S"
      by (rule mult_le_mono1)
    then have "S \<le> n * S - r * S"
      by simp
    moreover have "take S (drop (r * S) (concat (map f [0..<n]))) = f r"
      using Suc.prems(1) True by (intro Suc.IH) simp_all
    ultimately show ?thesis
      using True by (simp add: len)
  next
    case False
    with Suc.prems(2) have "r = n"
      by simp
    then show ?thesis
      using Suc.prems(1) [of n] by (simp add: len)
  qed
qed

lemma wire_samples_nth:
  assumes "q < n"
  shows "wire_samples P y u v n ! (4 * q) = uint (fst (snd P) (u + int q))"
    and "wire_samples P y u v n ! (4 * q + 1) = uint (fst P (y + 2 * int q))"
    and "wire_samples P y u v n ! (4 * q + 2) = uint (snd (snd P) (v + int q))"
    and "wire_samples P y u v n ! (4 * q + 3) = uint (fst P (y + 2 * int q + 1))"
proof -
  from assms obtain m where n: "n = q + Suc m"
    using less_iff_Suc_add by auto
  have ws: "wire_samples P y u v (q + Suc m) =
      wire_samples P y u v q @
      uint (fst (snd P) (u + int q)) # uint (fst P (y + 2 * int q)) #
       uint (snd (snd P) (v + int q)) # uint (fst P (y + 2 * int q + 1))
      # wire_samples P (y + 2 * int q + 2) (u + int q + 1) (v + int q + 1) m"
    by (simp only: wire_samples_add wire_samples_Suc append_Cons append_Nil)
  have len: "length (wire_samples P y u v q) = 4 * q"
    by (rule length_wire_samples)
  show "wire_samples P y u v n ! (4 * q) = uint (fst (snd P) (u + int q))"
    unfolding n ws by (simp add: nth_append len)
  show "wire_samples P y u v n ! (4 * q + 1) = uint (fst P (y + 2 * int q))"
    unfolding n ws by (simp add: nth_append len)
  show "wire_samples P y u v n ! (4 * q + 2) = uint (snd (snd P) (v + int q))"
    unfolding n ws by (simp add: nth_append len)
  show "wire_samples P y u v n ! (4 * q + 3) = uint (fst P (y + 2 * int q + 1))"
    unfolding n ws by (simp add: nth_append len eval_nat_numeral)
qed

lemma pack_words_nth:
  "3 * k + 2 < length cs \<Longrightarrow>
     pack_words cs ! k = v210_word (cs ! (3 * k)) (cs ! (3 * k + 1)) (cs ! (3 * k + 2))"
proof (induction cs arbitrary: k rule: pack_words.induct)
  case (1 a b c xs)
  show ?case
  proof (cases k)
    case 0
    then show ?thesis by simp
  next
    case (Suc k')
    with "1.prems" have "3 * k' + 2 < length xs"
      by simp
    from "1.IH" [OF this] show ?thesis
      by (simp add: Suc)
  qed
qed simp_all

lemma pack_words_top_bits:
  assumes "\<forall>x\<in>set cs. 0 \<le> x \<and> x < 1024" "w \<in> set (pack_words cs)"
  shows "\<not> bit w 30 \<and> \<not> bit w 31"
  using assms
  by (induction cs rule: pack_words.induct) (auto simp add: v210_word_top)

lemma CLIP_range: "4 \<le> CLIP v \<and> CLIP v \<le> 1019"
  by (simp add: CLIP_def av_clip_def)

lemma CLIP8_range: "1 \<le> CLIP8 v \<and> CLIP8 v \<le> 254"
  by (simp add: CLIP8_def av_clip_def)

lemma CLIP_field: "0 \<le> CLIP x \<and> CLIP x < 1024"
  using CLIP_range [of x] by simp

lemma up2_field: "0 \<le> up2 x \<and> up2 x < 1024"
  using CLIP8_range [of x] by (simp add: up2_def push_bit_eq_mult)

lemma out_word_packed_bytes:
  assumes "k < (4 * n + 2) div 3"
  shows "out_word (packed_bytes f P y u v n @ rest) k = pack_words (map f (wire_samples P y u v n)) ! k"
  unfolding packed_bytes_def
  by (rule out_word_concat) (use assms in \<open>simp add: length_pack_words length_wire_samples\<close>)

lemma out_field_packed_bytes:
  assumes f: "\<And>x. 0 \<le> f x \<and> f x < 1024" and i: "i < 4 * n"
  shows "out_field (packed_bytes f P y u v n @ rest) i = f (wire_samples P y u v n ! i)"
proof -
  have "i + 3 \<le> 4 * n + 2"
    using i by simp
  then have "(i + 3) div 3 \<le> (4 * n + 2) div 3"
    by (rule div_le_mono)
  then have k: "i div 3 < (4 * n + 2) div 3"
    by simp
  have "field (i mod 3) (pack_words (map f (wire_samples P y u v n)) ! (i div 3))
      = map f (wire_samples P y u v n) ! i"
    by (rule field_pack_words) (use f i in \<open>auto simp add: length_wire_samples\<close>)
  then show ?thesis
    using i by (simp add: out_field_def out_word_packed_bytes [OF k] length_wire_samples)
qed

lemma copy_side_data_Inr:
  assumes "copy_side_data nsd pic ft pt pkt = Inr pkt'"
  shows "pkt_data pkt' = pkt_data pkt" "pkt_size pkt' = pkt_size pkt" "side_data_fits nsd pic ft pt"
  using assms by (auto simp add: copy_side_data_def side_data_fits_def split: option.splits if_splits)

lemma copy_side_data_Inl:
  assumes "copy_side_data nsd pic ft pt pkt = Inl e"
  shows "e = AVERROR_ENOMEM" "\<not> side_data_fits nsd pic ft pt"
  using assms by (auto simp add: copy_side_data_def side_data_fits_def split: option.splits if_splits)

lemma copy_side_data_fits:
  assumes "side_data_fits nsd pic ft pt"
  shows "\<exists>pkt'. copy_side_data nsd pic ft pt pkt = Inr pkt'"
  using assms by (auto simp add: copy_side_data_def side_data_fits_def split: option.splits)

lemma then_copy_Inr:
  assumes "(case copy_side_data nsd pic ft pt pkt of Inl e \<Rightarrow> Inl e | Inr p \<Rightarrow> k p) = Inr r"
  obtains p where "copy_side_data nsd pic ft pt pkt = Inr p" "k p = Inr r"
  using assms by (cases "copy_side_data nsd pic ft pt pkt") simp_all

lemma then_copy_Inl:
  assumes "(case copy_side_data nsd pic ft pt pkt of Inl e \<Rightarrow> Inl e | Inr p \<Rightarrow> k p) = Inl e"
  obtains "e = AVERROR_ENOMEM" "\<not> side_data_fits nsd pic ft pt"
  | p where "copy_side_data nsd pic ft pt pkt = Inr p" "k p = Inl e"
  using assms copy_side_data_Inl [of nsd pic ft pt pkt]
  by (cases "copy_side_data nsd pic ft pt pkt") simp_all

lemma encode_frame_eq:
  "encode_frame alloc nsd avctx pic =
     (if alloc (height avctx * stride avctx) < 0
      then Inl (AVERROR_alloc (alloc (height avctx * stride avctx)))
      else copy_all nsd pic (frame_packet nsd avctx pic))"
  unfolding encode_frame_def frame_packet_def copy_all_def Let_def by (rule refl)

lemma copy_all_Inr:
  assumes "copy_all nsd pic pkt = Inr r"
  shows "pkt_data r = pkt_data pkt" "pkt_size r = pkt_size pkt" "side_data_ok nsd pic"
proof -
  from assms [unfolded copy_all_def] obtain p1 where
    c1: "copy_side_data nsd pic AV_FRAME_DATA_A53_CC AV_PKT_DATA_A53_CC pkt = Inr p1"
    and k1: "(case copy_side_data nsd pic AV_FRAME_DATA_AFD AV_PKT_DATA_AFD p1 of
             Inl e \<Rightarrow> Inl e
           | Inr pkt \<Rightarrow>
           case copy_side_data nsd pic AV_FRAME_DATA_BARDATA AV_PKT_DATA_BARDATA pkt of
             Inl e \<Rightarrow> Inl e
           | Inr pkt \<Rightarrow>
           case copy_side_data nsd pic AV_FRAME_DATA_PIPELINE_STATS AV_PKT_DATA_PIPELINE_STATS pkt of
             Inl e \<Rightarrow> Inl e
           | Inr pkt \<Rightarrow>
           case copy_side_data nsd pic AV_FRAME_DATA_SEI_UNREGISTERED AV_PKT_DATA_SEI_UNREGISTERED pkt of
             Inl e \<Rightarrow> Inl e
           | Inr pkt \<Rightarrow> Inr (pkt\<lparr>pkt_flags := pkt_flags pkt OR AV_PKT_FLAG_KEY\<rparr>)) = Inr r"
    by (rule then_copy_Inr)
  from k1 obtain p2 where
    c2: "copy_side_data nsd pic AV_FRAME_DATA_AFD AV_PKT_DATA_AFD p1 = Inr p2"
    and k2: "(case copy_side_data nsd pic AV_FRAME_DATA_BARDATA AV_PKT_DATA_BARDATA p2 of
             Inl e \<Rightarrow> Inl e
           | Inr pkt \<Rightarrow>
           case copy_side_data nsd pic AV_FRAME_DATA_PIPELINE_STATS AV_PKT_DATA_PIPELINE_STATS pkt of
             Inl e \<Rightarrow> Inl e
           | Inr pkt \<Rightarrow>
           case copy_side_data nsd pic AV_FRAME_DATA_SEI_UNREGISTERED AV_PKT_DATA_SEI_UNREGISTERED pkt of
             Inl e \<Rightarrow> Inl e
           | Inr pkt \<Rightarrow> Inr (pkt\<lparr>pkt_flags := pkt_flags pkt OR AV_PKT_FLAG_KEY\<rparr>)) = Inr r"
    by (rule then_copy_Inr)
  from k2 obtain p3 where
    c3: "copy_side_data nsd pic AV_FRAME_DATA_BARDATA AV_PKT_DATA_BARDATA p2 = Inr p3"
    and k3: "(case copy_side_data nsd pic AV_FRAME_DATA_PIPELINE_STATS AV_PKT_DATA_PIPELINE_STATS p3 of
             Inl e \<Rightarrow> Inl e
           | Inr pkt \<Rightarrow>
           case copy_side_data nsd pic AV_FRAME_DATA_SEI_UNREGISTERED AV_PKT_DATA_SEI_UNREGISTERED pkt of
             Inl e \<Rightarrow> Inl e
           | Inr pkt \<Rightarrow> Inr (pkt\<lparr>pkt_flags := pkt_flags pkt OR AV_PKT_FLAG_KEY\<rparr>)) = Inr r"
    by (rule then_copy_Inr)
  from k3 obtain p4 where
    c4: "copy_side_data nsd pic AV_FRAME_DATA_PIPELINE_STATS AV_PKT_DATA_PIPELINE_STATS p3 = Inr p4"
    and k4: "(case copy_side_data nsd pic AV_FRAME_DATA_SEI_UNREGISTERED AV_PKT_DATA_SEI_UNREGISTERED p4 of
             Inl e \<Rightarrow> Inl e
           | Inr pkt \<Rightarrow> Inr (pkt\<lparr>pkt_flags := pkt_flags pkt OR AV_PKT_FLAG_KEY\<rparr>)) = Inr r"
    by (rule then_copy_Inr)
  from k4 obtain p5 where
    c5: "copy_side_data nsd pic AV_FRAME_DATA_SEI_UNREGISTERED AV_PKT_DATA_SEI_UNREGISTERED p4 = Inr p5"
    and k5: "Inr (p5\<lparr>pkt_flags := pkt_flags p5 OR AV_PKT_FLAG_KEY\<rparr>) = (Inr r :: error + AVPacket)"
    by (rule then_copy_Inr)
  from k5 have r: "r = p5\<lparr>pkt_flags := pkt_flags p5 OR AV_PKT_FLAG_KEY\<rparr>"
    by simp
  note d = copy_side_data_Inr(1) [OF c1] copy_side_data_Inr(1) [OF c2] copy_side_data_Inr(1) [OF c3]
    copy_side_data_Inr(1) [OF c4] copy_side_data_Inr(1) [OF c5]
  note z = copy_side_data_Inr(2) [OF c1] copy_side_data_Inr(2) [OF c2] copy_side_data_Inr(2) [OF c3]
    copy_side_data_Inr(2) [OF c4] copy_side_data_Inr(2) [OF c5]
  show "pkt_data r = pkt_data pkt"
    unfolding r using d by simp
  show "pkt_size r = pkt_size pkt"
    unfolding r using z by simp
  show "side_data_ok nsd pic"
    unfolding side_data_ok_def
    using copy_side_data_Inr(3) [OF c1] copy_side_data_Inr(3) [OF c2] copy_side_data_Inr(3) [OF c3]
      copy_side_data_Inr(3) [OF c4] copy_side_data_Inr(3) [OF c5]
    by (intro conjI)
qed

lemma copy_all_ok:
  assumes "side_data_ok nsd pic"
  shows "\<exists>r. copy_all nsd pic pkt = Inr r"
proof -
  have f: "side_data_fits nsd pic AV_FRAME_DATA_A53_CC AV_PKT_DATA_A53_CC"
    "side_data_fits nsd pic AV_FRAME_DATA_AFD AV_PKT_DATA_AFD"
    "side_data_fits nsd pic AV_FRAME_DATA_BARDATA AV_PKT_DATA_BARDATA"
    "side_data_fits nsd pic AV_FRAME_DATA_PIPELINE_STATS AV_PKT_DATA_PIPELINE_STATS"
    "side_data_fits nsd pic AV_FRAME_DATA_SEI_UNREGISTERED AV_PKT_DATA_SEI_UNREGISTERED"
    using assms by (simp_all add: side_data_ok_def)
  obtain p1 where c1: "copy_side_data nsd pic AV_FRAME_DATA_A53_CC AV_PKT_DATA_A53_CC pkt = Inr p1"
    using copy_side_data_fits [OF f(1)] by blast
  obtain p2 where c2: "copy_side_data nsd pic AV_FRAME_DATA_AFD AV_PKT_DATA_AFD p1 = Inr p2"
    using copy_side_data_fits [OF f(2)] by blast
  obtain p3 where c3: "copy_side_data nsd pic AV_FRAME_DATA_BARDATA AV_PKT_DATA_BARDATA p2 = Inr p3"
    using copy_side_data_fits [OF f(3)] by blast
  obtain p4 where c4: "copy_side_data nsd pic AV_FRAME_DATA_PIPELINE_STATS AV_PKT_DATA_PIPELINE_STATS p3 = Inr p4"
    using copy_side_data_fits [OF f(4)] by blast
  obtain p5 where c5: "copy_side_data nsd pic AV_FRAME_DATA_SEI_UNREGISTERED AV_PKT_DATA_SEI_UNREGISTERED p4 = Inr p5"
    using copy_side_data_fits [OF f(5)] by blast
  have "copy_all nsd pic pkt = Inr (p5\<lparr>pkt_flags := pkt_flags p5 OR AV_PKT_FLAG_KEY\<rparr>)"
    unfolding copy_all_def by (simp only: c1 c2 c3 c4 c5 sum.case)
  then show ?thesis ..
qed

lemma copy_all_Inl:
  assumes "copy_all nsd pic pkt = Inl e"
  shows "e = AVERROR_ENOMEM" "\<not> side_data_ok nsd pic"
proof -
  show "\<not> side_data_ok nsd pic"
    using copy_all_ok [of nsd pic pkt] assms by auto
  from assms [unfolded copy_all_def] show "e = AVERROR_ENOMEM"
    by (elim then_copy_Inl) simp_all
qed

lemma frame_packet_simps:
  "pkt_size (frame_packet nsd avctx pic) = height avctx * stride avctx"
  "pkt_data (frame_packet nsd avctx pic) =
      (if format pic = AV_PIX_FMT_YUV422P10 then
         dst (encode_rows_10 avctx pic (cast_u16 (data pic 0), cast_u16 (data pic 1), cast_u16 (data pic 2)) 0
               \<lparr>ptr_y = 0, ptr_u = 0, ptr_v = 0, dst = []\<rparr>)
       else if format pic = AV_PIX_FMT_YUV422P \<or> format pic = AV_PIX_FMT_YUV420P then
         dst (encode_rows_8 avctx pic (data pic 0, data pic 1, data pic 2) 0
               \<lparr>ptr_y = 0, ptr_u = 0, ptr_v = 0, dst = [], u_even = 0, v_even = 0\<rparr>)
       else [])"
  by (simp_all add: frame_packet_def Let_def)

lemma encode_frame_Inr:
  assumes "encode_frame alloc nsd avctx pic = Inr pkt"
  shows "0 \<le> alloc (height avctx * stride avctx)"
    and "pkt_size pkt = height avctx * stride avctx"
    and "pkt_data pkt =
      (if format pic = AV_PIX_FMT_YUV422P10 then
         dst (encode_rows_10 avctx pic (cast_u16 (data pic 0), cast_u16 (data pic 1), cast_u16 (data pic 2)) 0
               \<lparr>ptr_y = 0, ptr_u = 0, ptr_v = 0, dst = []\<rparr>)
       else if format pic = AV_PIX_FMT_YUV422P \<or> format pic = AV_PIX_FMT_YUV420P then
         dst (encode_rows_8 avctx pic (data pic 0, data pic 1, data pic 2) 0
               \<lparr>ptr_y = 0, ptr_u = 0, ptr_v = 0, dst = [], u_even = 0, v_even = 0\<rparr>)
       else [])"
    and "side_data_ok nsd pic"
proof -
  show ok: "0 \<le> alloc (height avctx * stride avctx)"
    using assms unfolding encode_frame_eq by (cases "alloc (height avctx * stride avctx) < 0") simp_all
  then have c: "copy_all nsd pic (frame_packet nsd avctx pic) = Inr pkt"
    using assms unfolding encode_frame_eq by simp
  show "side_data_ok nsd pic"
    by (rule copy_all_Inr(3) [OF c])
  show "pkt_size pkt = height avctx * stride avctx"
    unfolding copy_all_Inr(2) [OF c] by (rule frame_packet_simps(1))
  show "pkt_data pkt =
      (if format pic = AV_PIX_FMT_YUV422P10 then
         dst (encode_rows_10 avctx pic (cast_u16 (data pic 0), cast_u16 (data pic 1), cast_u16 (data pic 2)) 0
               \<lparr>ptr_y = 0, ptr_u = 0, ptr_v = 0, dst = []\<rparr>)
       else if format pic = AV_PIX_FMT_YUV422P \<or> format pic = AV_PIX_FMT_YUV420P then
         dst (encode_rows_8 avctx pic (data pic 0, data pic 1, data pic 2) 0
               \<lparr>ptr_y = 0, ptr_u = 0, ptr_v = 0, dst = [], u_even = 0, v_even = 0\<rparr>)
       else [])"
    unfolding copy_all_Inr(1) [OF c] by (rule frame_packet_simps(2))
qed

lemma encode_frame_ok:
  assumes "0 \<le> alloc (height avctx * stride avctx)" "side_data_ok nsd pic"
  shows "encode_frame alloc nsd avctx pic = Inr (projr (encode_frame alloc nsd avctx pic))"
proof -
  obtain r where "copy_all nsd pic (frame_packet nsd avctx pic) = Inr r"
    using copy_all_ok [OF assms(2)] by blast
  then have "encode_frame alloc nsd avctx pic = Inr r"
    using assms(1) unfolding encode_frame_eq by simp
  then show ?thesis
    by simp
qed

lemma encode_frame_Inl:
  assumes "encode_frame alloc nsd avctx pic = Inl e"
  shows "(alloc (height avctx * stride avctx) < 0 \<and> e = AVERROR_alloc (alloc (height avctx * stride avctx)))
    \<or> (0 \<le> alloc (height avctx * stride avctx) \<and> \<not> side_data_ok nsd pic \<and> e = AVERROR_ENOMEM)"
proof (cases "alloc (height avctx * stride avctx) < 0")
  case True
  then show ?thesis
    using assms unfolding encode_frame_eq by simp
next
  case False
  then have "copy_all nsd pic (frame_packet nsd avctx pic) = Inl e"
    using assms unfolding encode_frame_eq by simp
  from copy_all_Inl [OF this] False show ?thesis
    by simp
qed


lemma side_data_alloc_ok: "side_data_ok side_data_alloc_ok pic"
  by (simp add: side_data_ok_def side_data_fits_def side_data_alloc_ok_def split: option.splits)

lemma example_side_data_copied:
  "pkt_side_data (projr (encode_frame alloc_ok side_data_alloc_ok avctx (example_pic fmt il)))
     = [(AV_PKT_DATA_ORIG_PTS, [0, 0, 0, 0, 0, 0, 0, 0]), (AV_PKT_DATA_A53_CC, [252, 148, 44])]"
  by (simp add: encode_frame_eq copy_all_def copy_side_data_def frame_packet_def Let_def
        example_pic_def example_side_data_def alloc_ok_def side_data_alloc_ok_def store_int64_def
        upt_rec)

lemma example_side_data_fails:
  "encode_frame alloc_ok side_data_alloc_fails avctx (example_pic fmt il) = Inl AVERROR_ENOMEM"
  by (simp add: encode_frame_eq copy_all_def copy_side_data_def example_pic_def
        example_side_data_def alloc_ok_def side_data_alloc_fails_def)

lemma encode_frame_10:
  assumes ctx: "priv_data avctx = ff_v210enc_init"
    and wd: "0 \<le> width avctx" "even (width avctx)"
    and fmt: "format pic = AV_PIX_FMT_YUV422P10"
    and enc: "encode_frame alloc nsd avctx pic = Inr pkt"
  shows "pkt_data pkt = concat (map (frame_line_10 avctx pic) [0..<nat (height avctx)])"
proof -
  have "dst (encode_rows_10 avctx pic (cast_u16 (data pic 0), cast_u16 (data pic 1), cast_u16 (data pic 2)) 0
           \<lparr>ptr_y = 0, ptr_u = 0, ptr_v = 0, dst = []\<rparr>)
      = concat (map (frame_line_10 avctx pic) [0..<nat (height avctx)])"
    unfolding encode_rows_10_dst [OF ctx wd] frame_line_10_def [abs_def] by simp
  then show ?thesis
    using encode_frame_Inr(3) [OF enc] by (simp add: fmt)
qed

lemma inv8_init:
  "inv8 pic 0 \<lparr>ptr_y = 0, ptr_u = 0, ptr_v = 0, dst = [], u_even = 0, v_even = 0\<rparr>"
  by (simp add: inv8_def chroma_inv_def)

lemma encode_frame_8:
  assumes ctx: "priv_data avctx = ff_v210enc_init"
    and wd: "0 \<le> width avctx" "even (width avctx)"
    and fmt: "format pic = AV_PIX_FMT_YUV422P \<or> format pic = AV_PIX_FMT_YUV420P"
    and enc: "encode_frame alloc nsd avctx pic = Inr pkt"
  shows "pkt_data pkt = concat (map (frame_line_8 avctx pic) [0..<nat (height avctx)])"
proof -
  have fl: "frame_line_8 avctx pic = (\<lambda>j. line_8 avctx pic (data pic 0, data pic 1, data pic 2) (0 + int j))"
    by (simp add: frame_line_8_def line_8_def fun_eq_iff)
  have "dst (encode_rows_8 avctx pic (data pic 0, data pic 1, data pic 2) 0
           \<lparr>ptr_y = 0, ptr_u = 0, ptr_v = 0, dst = [], u_even = 0, v_even = 0\<rparr>)
      = concat (map (frame_line_8 avctx pic) [0..<nat (height avctx)])"
    unfolding encode_rows_8_dst [OF ctx wd inv8_init] fl by simp
  moreover have "format pic \<noteq> AV_PIX_FMT_YUV422P10"
    using fmt by auto
  ultimately show ?thesis
    using encode_frame_Inr(3) [OF enc] fmt by simp
qed

lemma length_frame_line:
  assumes "0 \<le> width avctx" "even (width avctx)"
  shows "length (frame_line_10 avctx pic r) = nat (stride avctx)"
    and "length (frame_line_8 avctx pic r) = nat (stride avctx)"
  unfolding frame_line_10_def frame_line_8_def
  by (rule length_line [OF assms])+

lemma out_line_frame_10:
  assumes "0 \<le> width avctx" "even (width avctx)" "int r < height avctx"
  shows "out_line avctx (concat (map (frame_line_10 avctx pic) [0..<nat (height avctx)])) r
      = frame_line_10 avctx pic r"
  unfolding out_line_def
proof (rule take_drop_concat_lines)
  show "length (frame_line_10 avctx pic i) = nat (stride avctx)" for i
    by (rule length_frame_line(1) [OF assms(1,2)])
  show "r < nat (height avctx)"
    using assms(3) by simp
qed

lemma out_line_frame_8:
  assumes "0 \<le> width avctx" "even (width avctx)" "int r < height avctx"
  shows "out_line avctx (concat (map (frame_line_8 avctx pic) [0..<nat (height avctx)])) r
      = frame_line_8 avctx pic r"
  unfolding out_line_def
proof (rule take_drop_concat_lines)
  show "length (frame_line_8 avctx pic i) = nat (stride avctx)" for i
    by (rule length_frame_line(2) [OF assms(1,2)])
  show "r < nat (height avctx)"
    using assms(3) by simp
qed

lemma packed_word:
  assumes "3 * k + 2 < 4 * n"
  shows "out_word (packed_bytes f P y u v n @ rest) k =
     v210_word (f (wire_samples P y u v n ! (3 * k))) (f (wire_samples P y u v n ! (3 * k + 1)))
       (f (wire_samples P y u v n ! (3 * k + 2)))"
proof -
  have "3 * k + 3 \<le> 4 * n + 2"
    using assms by simp
  then have "(3 * k + 3) div 3 \<le> (4 * n + 2) div 3"
    by (rule div_le_mono)
  then have k: "k < (4 * n + 2) div 3"
    by simp
  show ?thesis
    using assms by (simp add: out_word_packed_bytes [OF k] pack_words_nth length_wire_samples)
qed

lemma packed_top_bits:
  assumes f: "\<And>x. 0 \<le> f x \<and> f x < 1024" and k: "k < (4 * n + 2) div 3"
  shows "\<not> bit (out_word (packed_bytes f P y u v n @ rest) k) 30
     \<and> \<not> bit (out_word (packed_bytes f P y u v n @ rest) k) 31"
proof -
  have "pack_words (map f (wire_samples P y u v n)) ! k \<in> set (pack_words (map f (wire_samples P y u v n)))"
    using k by (intro nth_mem) (simp add: length_pack_words length_wire_samples)
  moreover have "\<forall>x\<in>set (map f (wire_samples P y u v n)). 0 \<le> x \<and> x < 1024"
    using f by auto
  ultimately show ?thesis
    unfolding out_word_packed_bytes [OF k] by (rule pack_words_top_bits [rotated])
qed

lemma pack_10_dst:
  "dst (v210_planar_pack_10_c P y u v (6 * int n)) = packed_bytes CLIP P y u v (3 * n) @ []"
  by (simp add: v210_planar_pack_10_c_def pack_10_loop_eq packed_def)

lemma length_packed_bytes_3: "length (packed_bytes f P y u v (3 * m)) = 16 * m"
proof -
  have "(4 * (3 * m) + 2) div 3 = 4 * m"
    by presburger
  then show ?thesis
    by (simp only: length_packed_bytes)
qed

lemma length_packed_bytes_6: "length (packed_bytes f P y u v (6 * m)) = 32 * m"
  using length_packed_bytes_3 [of f P y u v "2 * m"] by simp

lemma pack_10_state:
  "v210_planar_pack_10_c P y u v (6 * int n)
     = packed CLIP P (3 * n) \<lparr>ptr_y = y, ptr_u = u, ptr_v = v, dst = []\<rparr>"
  by (simp add: v210_planar_pack_10_c_def pack_10_loop_eq)

lemma pack_8_state:
  "v210_planar_pack_8_c P y u v (12 * int n)
     = packed up2 P (6 * n) \<lparr>ptr_y = y, ptr_u = u, ptr_v = v, dst = []\<rparr>"
  by (simp add: v210_planar_pack_8_c_def pack_8_loop_eq)

lemma pack_line_10_advance:
  "length (dst (pack_line_10 ff_v210enc_init P y u v (sample_w * (6 * sample_factor_10 ff_v210enc_init))))
     = nat (sample_w * 16 * sample_factor_10 ff_v210enc_init)"
proof (cases "0 \<le> sample_w")
  case True
  then obtain n where "sample_w = int n"
    using nonneg_int_cases by blast
  then show ?thesis
    using pack_10_state [of P y u v n] length_packed_bytes_3 [of CLIP P y u v n]
    by (simp add: ff_v210enc_init_def packed_def mult.commute)
next
  case False
  then have "nat ((sample_w * 6 - 0) div 6) = 0"
    by simp
  with False show ?thesis
    by (simp add: ff_v210enc_init_def v210_planar_pack_10_c_def pack_10_loop_eq packed_0)
qed

lemma pack_line_8_advance:
  "length (dst (pack_line_8 ff_v210enc_init P y u v (sample_w * (12 * sample_factor_8 ff_v210enc_init))))
     = nat (sample_w * 32 * sample_factor_8 ff_v210enc_init)"
proof (cases "0 \<le> sample_w")
  case True
  then obtain n where "sample_w = int n"
    using nonneg_int_cases by blast
  then show ?thesis
    using pack_8_state [of P y u v n] length_packed_bytes_6 [of up2 P y u v n]
    by (simp add: ff_v210enc_init_def packed_def mult.commute)
next
  case False
  then have "nat ((sample_w * 12 - 0) div 12) = 0"
    by simp
  with False show ?thesis
    by (simp add: ff_v210enc_init_def v210_planar_pack_8_c_def pack_8_loop_eq packed_0)
qed

lemma encode_tail_10_val0: "encode_tail_10 val0 P wd w s = encode_tail_10 val1 P wd w s"
  by (simp add: encode_tail_10_def)

lemma encode_tail_8_val0: "encode_tail_8 val0 P wd w s = encode_tail_8 val1 P wd w s"
  by (simp add: encode_tail_8_def)

lemma stride_in_int_range:
  assumes "0 \<le> width avctx" "width avctx \<le> 268435440"
  shows "width avctx + 47 < 2 ^ 31" "aligned_width avctx * 8 < 2 ^ 31" "width avctx * 8 + 11 < 2 ^ 31"
    "0 \<le> stride avctx" "stride avctx < 2 ^ 31"
proof -
  have a: "aligned_width avctx = (width avctx + 47) div 48 * 48"
    using assms by (simp add: aligned_width_def sdiv_nonneg)
  have "(width avctx + 47) div 48 \<le> 5592405"
    using assms by simp
  then show "aligned_width avctx * 8 < 2 ^ 31"
    unfolding a by simp
  show "width avctx + 47 < 2 ^ 31" "width avctx * 8 + 11 < 2 ^ 31"
    using assms by simp_all
  have "0 \<le> (width avctx + 47) div 48" "(width avctx + 47) div 48 \<le> 5592405"
    using assms by simp_all
  then show "0 \<le> stride avctx" "stride avctx < 2 ^ 31"
    unfolding stride_eq [OF assms(1)] by simp_all
qed

lemma encode_frame_lines:
  assumes ctx: "priv_data avctx = ff_v210enc_init"
    and wd: "0 \<le> width avctx" "even (width avctx)"
    and enc: "encode_frame alloc nsd avctx pic = Inr pkt"
    and r: "int r < height avctx"
  shows "format pic = AV_PIX_FMT_YUV422P10 \<Longrightarrow>
      out_line avctx (pkt_data pkt) r = frame_line_10 avctx pic r"
    and "format pic = AV_PIX_FMT_YUV422P \<or> format pic = AV_PIX_FMT_YUV420P \<Longrightarrow>
      out_line avctx (pkt_data pkt) r = frame_line_8 avctx pic r"
proof -
  show "out_line avctx (pkt_data pkt) r = frame_line_10 avctx pic r"
    if "format pic = AV_PIX_FMT_YUV422P10"
  proof -
    have "pkt_data pkt = concat (map (frame_line_10 avctx pic) [0..<nat (height avctx)])"
      by (rule encode_frame_10 [OF ctx wd that enc])
    then show ?thesis
      by (simp only: out_line_frame_10 [OF wd r])
  qed
  show "out_line avctx (pkt_data pkt) r = frame_line_8 avctx pic r"
    if "format pic = AV_PIX_FMT_YUV422P \<or> format pic = AV_PIX_FMT_YUV420P"
  proof -
    have "pkt_data pkt = concat (map (frame_line_8 avctx pic) [0..<nat (height avctx)])"
      by (rule encode_frame_8 [OF ctx wd that enc])
    then show ?thesis
      by (simp only: out_line_frame_8 [OF wd r])
  qed
qed

lemma length_content:
  assumes "0 \<le> width avctx" "even (width avctx)"
  shows "int (length (packed_bytes f P y u v (nat (width avctx div 2)))) = stride avctx - line_padding avctx"
    and "0 \<le> line_padding avctx"
proof -
  from assms obtain n :: nat where n: "width avctx = 2 * int n"
    by (metis evenE nonneg_int_cases zero_le_mult_iff zero_le_numeral not_numeral_le_zero)
  show "int (length (packed_bytes f P y u v (nat (width avctx div 2)))) = stride avctx - line_padding avctx"
    using line_padding_eq [OF n] by (simp add: length_packed_bytes n)
  show "0 \<le> line_padding avctx"
    using line_padding_eq [OF n] by simp
qed

lemma stride_nonneg: "0 \<le> width avctx \<Longrightarrow> 0 \<le> stride avctx"
proof -
  assume a: "0 \<le> width avctx"
  then have "0 \<le> (width avctx + 47) div 48"
    by (simp add: pos_imp_zdiv_nonneg_iff)
  then show ?thesis
    unfolding stride_eq [OF a] by simp
qed

lemma ceil48: "\<lceil>real_of_int w / 48\<rceil> = (w + 47) div 48"
proof (rule ceiling_unique)
  define q where "q = (w + 47) div 48"
  define r where "r = (w + 47) mod 48"
  have e: "w + 47 = 48 * q + r"
    by (simp add: q_def r_def)
  have m: "0 \<le> r" "r < 48"
    by (simp_all add: r_def)
  have "48 * (q - 1) < w" "w \<le> 48 * q"
    using e m by simp_all
  then have "real_of_int (48 * (q - 1)) < real_of_int w" "real_of_int w \<le> real_of_int (48 * q)"
    by (simp_all only: of_int_less_iff of_int_le_iff)
  then show "real_of_int ((w + 47) div 48) - 1 < real_of_int w / 48"
    and "real_of_int w / 48 \<le> real_of_int ((w + 47) div 48)"
    unfolding q_def [symmetric] by (simp_all add: field_simps)
qed

lemma stride_spec_eq: "stride_spec w = 128 * ((w + 47) div 48)"
proof -
  have "(w + 47) div 48 * 48 * 8 = 3 * (128 * ((w + 47) div 48))"
    by simp
  then show ?thesis
    unfolding stride_spec_def ceil48 by (simp only: nonzero_mult_div_cancel_left)
qed

lemma length_frame:
  assumes "0 \<le> width avctx" "even (width avctx)"
  shows "length (concat (map (frame_line_10 avctx pic) [0..<nat (height avctx)])) = nat (height avctx * stride avctx)"
    and "length (concat (map (frame_line_8 avctx pic) [0..<nat (height avctx)])) = nat (height avctx * stride avctx)"
proof -
  have m: "nat (height avctx) * nat (stride avctx) = nat (height avctx * stride avctx)"
  proof (cases "0 \<le> height avctx")
    case True
    then show ?thesis
      by (simp add: nat_mult_distrib)
  next
    case False
    then have "height avctx * stride avctx \<le> 0"
      using stride_nonneg [OF assms(1)] by (simp add: mult_le_0_iff)
    with False show ?thesis
      by simp
  qed
  show "length (concat (map (frame_line_10 avctx pic) [0..<nat (height avctx)])) = nat (height avctx * stride avctx)"
    unfolding m [symmetric] by (rule length_concat_lines) (rule length_frame_line(1) [OF assms])
  show "length (concat (map (frame_line_8 avctx pic) [0..<nat (height avctx)])) = nat (height avctx * stride avctx)"
    unfolding m [symmetric] by (rule length_concat_lines) (rule length_frame_line(2) [OF assms])
qed

lemma example_avctx_simps:
  "width (example_avctx w h) = w" "height (example_avctx w h) = h"
  "priv_data (example_avctx w h) = ff_v210enc_init"
  by (simp_all add: example_avctx_def)

lemma example_pic_simps:
  "format (example_pic fmt il) = fmt" "interlaced_frame (example_pic fmt il) = il"
  "linesize (example_pic fmt il) = example_linesize" "data (example_pic fmt il) = example_data"
  by (simp_all add: example_pic_def)

lemma example_encode:
  "encode_frame alloc_ok side_data_alloc_ok (example_avctx w h) pic
     = Inr (projr (encode_frame alloc_ok side_data_alloc_ok (example_avctx w h) pic))"
  by (rule encode_frame_ok) (simp_all add: alloc_ok_def side_data_alloc_ok)

lemma example_stride_2:
  "stride (example_avctx 2 h) = 128" "line_padding (example_avctx 2 h) = 120"
  by (simp_all add: line_padding_def stride_def aligned_width_def example_avctx_def)

lemma packed_1:
  "packed f (Y, U, V) (Suc 0) s =
     s\<lparr>ptr_y := ptr_y s + 2, ptr_u := ptr_u s + 1, ptr_v := ptr_v s + 1,
       dst := dst s @ AV_WL32 (v210_word (f (uint (U (ptr_u s)))) (f (uint (Y (ptr_y s)))) (f (uint (V (ptr_v s)))))
                @ AV_WL32 (v210_word (f (uint (Y (ptr_y s + 1)))) 0 0)\<rparr>"
  by (simp add: packed_def packed_bytes_def wire_samples_1)

lemma packed_2:
  "packed f (Y, U, V) 2 s =
     s\<lparr>ptr_y := ptr_y s + 4, ptr_u := ptr_u s + 2, ptr_v := ptr_v s + 2,
       dst := dst s @ AV_WL32 (v210_word (f (uint (U (ptr_u s)))) (f (uint (Y (ptr_y s)))) (f (uint (V (ptr_v s)))))
                @ AV_WL32 (v210_word (f (uint (Y (ptr_y s + 1)))) (f (uint (U (ptr_u s + 1)))) (f (uint (Y (ptr_y s + 2)))))
                @ AV_WL32 (v210_word (f (uint (V (ptr_v s + 1)))) (f (uint (Y (ptr_y s + 3)))) 0)\<rparr>"
  by (simp add: packed_def packed_bytes_def wire_samples_2)

lemma width_and_1: "(w AND 1 \<noteq> 0) = odd (w::int)"
  by (simp add: and_one_eq mod_2_eq_odd)

lemma encode_frame_not_EINVAL: "encode_frame alloc nsd avctx pic \<noteq> Inl AVERROR_EINVAL"
  using encode_frame_Inl [of alloc nsd avctx pic AVERROR_EINVAL] by auto

lemma wire_samples_luma:
  assumes "x < 2 * n"
  shows "wire_samples P y u v n ! (2 * x + 1) = uint (fst P (y + int x))"
proof (cases "even x")
  case True
  then obtain q where x: "x = 2 * q"
    by (rule evenE)
  with assms have q: "q < n"
    by simp
  have i: "2 * x + 1 = 4 * q + 1" and j: "y + int x = y + 2 * int q"
    using x by simp_all
  show ?thesis
    unfolding i j by (rule wire_samples_nth(2) [OF q])
next
  case False
  then obtain q where x: "x = 2 * q + 1"
    by (rule oddE)
  with assms have q: "q < n"
    by simp
  have i: "2 * x + 1 = 4 * q + 3" and j: "y + int x = y + 2 * int q + 1"
    using x by simp_all
  show ?thesis
    unfolding i j by (rule wire_samples_nth(4) [OF q])
qed

lemma line_fields:
  assumes f: "\<And>s. 0 \<le> f s \<and> f s < 1024"
  shows "x < 2 * n \<Longrightarrow>
      out_field (packed_bytes f (Y, U, V) y u v n @ rest) (2 * x + 1) = f (uint (Y (y + int x)))"
    and "j < n \<Longrightarrow>
      out_field (packed_bytes f (Y, U, V) y u v n @ rest) (4 * j) = f (uint (U (u + int j)))"
    and "j < n \<Longrightarrow>
      out_field (packed_bytes f (Y, U, V) y u v n @ rest) (4 * j + 2) = f (uint (V (v + int j)))"
proof -
  let ?P = "(Y, U, V)"
  show "out_field (packed_bytes f ?P y u v n @ rest) (2 * x + 1) = f (uint (Y (y + int x)))"
    if "x < 2 * n"
  proof -
    have "2 * x + 1 < 4 * n"
      using that by simp
    then have a: "out_field (packed_bytes f ?P y u v n @ rest) (2 * x + 1)
        = f (wire_samples ?P y u v n ! (2 * x + 1))"
      by (rule out_field_packed_bytes [OF f])
    have b: "wire_samples ?P y u v n ! (2 * x + 1) = uint (Y (y + int x))"
      using wire_samples_luma [OF that, of ?P y u v] by (simp only: fst_conv snd_conv)
    show ?thesis
      unfolding a b ..
  qed
  show "out_field (packed_bytes f ?P y u v n @ rest) (4 * j) = f (uint (U (u + int j)))"
    if "j < n"
  proof -
    have "4 * j < 4 * n"
      using that by simp
    then have a: "out_field (packed_bytes f ?P y u v n @ rest) (4 * j)
        = f (wire_samples ?P y u v n ! (4 * j))"
      by (rule out_field_packed_bytes [OF f])
    have b: "wire_samples ?P y u v n ! (4 * j) = uint (U (u + int j))"
      using wire_samples_nth(1) [OF that, of ?P y u v] by (simp only: fst_conv snd_conv)
    show ?thesis
      unfolding a b ..
  qed
  show "out_field (packed_bytes f ?P y u v n @ rest) (4 * j + 2) = f (uint (V (v + int j)))"
    if "j < n"
  proof -
    have "4 * j + 2 < 4 * n"
      using that by simp
    then have a: "out_field (packed_bytes f ?P y u v n @ rest) (4 * j + 2)
        = f (wire_samples ?P y u v n ! (4 * j + 2))"
      by (rule out_field_packed_bytes [OF f])
    have b: "wire_samples ?P y u v n ! (4 * j + 2) = uint (V (v + int j))"
      using wire_samples_nth(3) [OF that, of ?P y u v] by (simp only: fst_conv snd_conv)
    show ?thesis
      unfolding a b ..
  qed
qed

lemma half_width:
  assumes "0 \<le> w" "even (w::int)" "int x < w"
  shows "x < 2 * nat (w div 2)" "x div 2 < nat (w div 2)"
proof -
  from assms(1,2) obtain n :: nat where n: "w = 2 * int n"
    by (metis evenE nonneg_int_cases zero_le_mult_iff zero_le_numeral not_numeral_le_zero)
  with assms(3) have "x < 2 * n"
    by simp
  then show "x < 2 * nat (w div 2)" "x div 2 < nat (w div 2)"
    by (simp_all add: n)
qed


lemma frame_line_8_fields:
  assumes "0 \<le> width avctx" "even (width avctx)" "int x < width avctx"
  shows "out_field (frame_line_8 avctx pic r) (2 * x + 1) = up2 (plane_sample_8 pic 0 (int r) (int x))"
    and "out_field (frame_line_8 avctx pic r) (4 * (x div 2))
      = up2 (plane_sample_8 pic 1 (chroma_line pic (int r)) (int (x div 2)))"
    and "out_field (frame_line_8 avctx pic r) (4 * (x div 2) + 2)
      = up2 (plane_sample_8 pic 2 (chroma_line pic (int r)) (int (x div 2)))"
  unfolding frame_line_8_def plane_sample_8_def
  by (rule line_fields(1) [of up2, OF up2_field half_width(1) [OF assms]]
      line_fields(2) [of up2, OF up2_field half_width(2) [OF assms]]
      line_fields(3) [of up2, OF up2_field half_width(2) [OF assms]])+

lemma example_pic_10_simps:
  "format example_pic_10 = AV_PIX_FMT_YUV422P10" "interlaced_frame example_pic_10 = 0"
  "linesize example_pic_10 = example_linesize_10" "data example_pic_10 = example_data_10"
  by (simp_all add: example_pic_10_def)

lemma example_sample_10: "plane_sample_10 example_pic_10 0 0 1 = 18"
  by (simp add: plane_sample_10_def example_pic_10_simps cast_u16_def example_data_10_def
        word_cat_eq push_bit_eq_mult)

lemma example_sample_8: "plane_sample_8 (example_pic fmt il) 0 0 1 = 26"
  by (simp add: plane_sample_8_def example_pic_simps example_data_def)





lemma pack_words_last:
  "length cs = 3 * m + 1 \<Longrightarrow> pack_words cs ! m = v210_word (cs ! (3 * m)) 0 0"
proof (induction cs arbitrary: m rule: pack_words.induct)
  case (1 a b c xs)
  then obtain m' where m: "m = Suc m'"
    by (cases m) simp_all
  with "1.prems" have "length xs = 3 * m' + 1"
    by simp
  from "1.IH" [OF this] show ?case
    by (simp add: m)
next
  case (3 a)
  then show ?case
    by simp
qed simp_all

lemma v210_word_low:
  assumes "0 \<le> a" "a < 1024"
  shows "v210_word a 0 0 = word_of_int a" "drop_bit 10 (v210_word a 0 0) = 0"
proof -
  show w: "v210_word a 0 0 = word_of_int a"
    by (simp add: v210_word_def)
  have t: "take_bit 10 a = a"
    using assms by (simp add: take_bit_int_eq_self)
  have "drop_bit 10 (word_of_int (take_bit 10 a) :: 32 word) = 0"
    by (intro bit_word_eqI) (simp add: bit_simps)
  then show "drop_bit 10 (v210_word a 0 0) = 0"
    by (simp only: w t)
qed

lemma last_word_mod6_2:
  assumes f: "\<And>s. 0 \<le> f s \<and> f s < 1024"
    and wd: "0 \<le> width avctx" "width avctx mod 6 = 2"
  shows "out_word (packed_bytes f (Y, U, V) y u v (nat (width avctx div 2)) @ rest)
           (nat ((stride avctx - line_padding avctx) div 4) - 1)
         = word_of_int (f (uint (Y (y + (width avctx - 1)))))"
    and "drop_bit 10 (out_word (packed_bytes f (Y, U, V) y u v (nat (width avctx div 2)) @ rest)
           (nat ((stride avctx - line_padding avctx) div 4) - 1)) = 0"
proof -
  let ?P = "(Y, U, V)"
  define q where "q = nat (width avctx div 6)"
  have w: "width avctx = 2 * int (3 * q + 1)"
    using wd unfolding q_def by simp presburger
  then have ev: "even (width avctx)"
    by simp
  have n: "nat (width avctx div 2) = 3 * q + 1"
    using w by simp
  let ?ws = "wire_samples ?P y u v (3 * q + 1)"
  have len: "int (length (packed_bytes f ?P y u v (3 * q + 1))) = stride avctx - line_padding avctx"
    using length_content(1) [OF wd(1) ev, of f ?P y u v] by (simp only: n)
  have "(4 * (3 * q + 1) + 2) div 3 = 4 * q + 2"
    by presburger
  then have "length (packed_bytes f ?P y u v (3 * q + 1)) = 4 * (4 * q + 2)"
    by (simp only: length_packed_bytes)
  with len have "stride avctx - line_padding avctx = 4 * int (4 * q + 2)"
    by simp
  then have k: "nat ((stride avctx - line_padding avctx) div 4) - 1 = 4 * q + 1"
    by simp
  have "4 * q + 1 < (4 * (3 * q + 1) + 2) div 3"
    by presburger
  then have a: "out_word (packed_bytes f ?P y u v (3 * q + 1) @ rest) (4 * q + 1)
      = pack_words (map f ?ws) ! (4 * q + 1)"
    by (rule out_word_packed_bytes)
  have "length (map f ?ws) = 3 * (4 * q + 1) + 1"
    by (simp add: length_wire_samples)
  then have b: "pack_words (map f ?ws) ! (4 * q + 1) = v210_word (map f ?ws ! (3 * (4 * q + 1))) 0 0"
    by (rule pack_words_last)
  have i: "3 * (4 * q + 1) = 2 * (6 * q + 1) + 1"
    by simp
  have "6 * q + 1 < 2 * (3 * q + 1)"
    by simp
  then have c: "?ws ! (2 * (6 * q + 1) + 1) = uint (Y (y + int (6 * q + 1)))"
    using wire_samples_luma [of "6 * q + 1" "3 * q + 1" ?P y u v] by (simp only: fst_conv)
  have d: "map f ?ws ! (3 * (4 * q + 1)) = f (uint (Y (y + (width avctx - 1))))"
    unfolding i using c w by (simp add: length_wire_samples)
  show "out_word (packed_bytes f ?P y u v (nat (width avctx div 2)) @ rest)
           (nat ((stride avctx - line_padding avctx) div 4) - 1)
         = word_of_int (f (uint (Y (y + (width avctx - 1)))))"
    unfolding n k a b d using f by (intro v210_word_low) auto
  show "drop_bit 10 (out_word (packed_bytes f ?P y u v (nat (width avctx div 2)) @ rest)
           (nat ((stride avctx - line_padding avctx) div 4) - 1)) = 0"
    unfolding n k a b d using f by (intro v210_word_low) auto
qed

lemma field_0_low:
  assumes "0 \<le> a" "a < 1024"
  shows "field 0 (word_of_int a) = a"
  using field_v210_word(1) [OF assms, of 0 0] by (simp add: v210_word_low(1) [OF assms])

lemma field_0_CLIP: "field 0 (word_of_int (CLIP s)) = CLIP s"
  using CLIP_field [of s] by (intro field_0_low) simp_all

lemma field_0_up2: "field 0 (word_of_int (up2 s)) = up2 s"
  using up2_field [of s] by (intro field_0_low) simp_all

lemma chroma_line_interlaced:
  assumes "format pic = AV_PIX_FMT_YUV420P" "interlaced_frame pic = 1" "r mod 4 < 2"
  shows "chroma_line pic (int r) = int (2 * (r div 4) + r mod 4)"
    and "chroma_line pic (int (r + 2)) = int (2 * (r div 4) + r mod 4)"
proof -
  have a: "r mod 2 = r mod 4" "(r + 2) div 4 = r div 4" "(r + 2) mod 2 = r mod 4"
    using assms(3) by presburger+
  have "chroma_line pic (int n) = int (2 * (n div 4) + n mod 2)" for n
    by (simp add: chroma_line_def assms(1,2) zdiv_int zmod_int)
  from this [of r] this [of "r + 2"]
  show "chroma_line pic (int r) = int (2 * (r div 4) + r mod 4)"
    and "chroma_line pic (int (r + 2)) = int (2 * (r div 4) + r mod 4)"
    by (simp_all only: a)
qed

lemma example_sample_u:
  "plane_sample_8 (example_pic fmt il) (Suc 0) 0 0 = 116"
  "plane_sample_8 (example_pic fmt il) (Suc 0) 1 0 = 126"
  by (simp_all add: plane_sample_8_def example_pic_simps example_data_def example_linesize_def)

lemma out_word_three:
  "out_word (AV_WL32 a @ AV_WL32 b @ AV_WL32 c) 0 = a"
  "out_word (AV_WL32 a @ AV_WL32 b @ AV_WL32 c) 1 = b"
  "out_word (AV_WL32 a @ AV_WL32 b @ AV_WL32 c) 2 = c"
proof -
  have c: "AV_WL32 c = AV_WL32 c @ []"
    by simp
  show "out_word (AV_WL32 a @ AV_WL32 b @ AV_WL32 c) 0 = a"
    by (rule out_word_0)
  show "out_word (AV_WL32 a @ AV_WL32 b @ AV_WL32 c) 1 = b"
    by (simp only: One_nat_def out_word_Suc out_word_0)
  show "out_word (AV_WL32 a @ AV_WL32 b @ AV_WL32 c) 2 = c"
    by (subst c) (simp only: numeral_2_eq_2 out_word_Suc out_word_0)
qed




lemma int_range_tight:
  "aligned_width (example_avctx 268435440 h) * 8 = 2147483520"
  "aligned_width (example_avctx 268435442 h) * 8 = 2147483904"
  by (simp_all add: aligned_width_def example_avctx_def)

section \<open>The claims\<close>

text \<open>C1, as the specification states it, fails: in the packet of an interlaced 4:2:0
  frame of 4 rows whose chroma rows differ, output rows 0 and 1 carry different chroma
  (the first U field is 464 in row 0 and 504 in row 1).\<close>

theorem interlaced_chroma_counterexample:
  "out_field (out_line (example_avctx 2 4)
      (pkt_data (projr (encode_frame alloc_ok side_data_alloc_ok (example_avctx 2 4) (example_pic AV_PIX_FMT_YUV420P 1)))) 0) 0
     = 464 \<and>
   out_field (out_line (example_avctx 2 4)
      (pkt_data (projr (encode_frame alloc_ok side_data_alloc_ok (example_avctx 2 4) (example_pic AV_PIX_FMT_YUV420P 1)))) 1) 0
     = 504 \<and>
   (464 :: int) \<noteq> 504"
proof -
  let ?A = "example_avctx 2 4"
  let ?P = "example_pic AV_PIX_FMT_YUV420P 1"
  note e = example_encode [of 2 4 ?P]
  have l: "out_line ?A (pkt_data (projr (encode_frame alloc_ok side_data_alloc_ok ?A ?P))) r = frame_line_8 ?A ?P r"
    if "r < 4" for r
    using that by (intro encode_frame_lines(2) [OF _ _ _ e]) (simp_all add: example_avctx_simps example_pic_simps)
  have f: "out_field (frame_line_8 ?A ?P r) (4 * (0 div 2))
      = up2 (plane_sample_8 ?P 1 (chroma_line ?P (int r)) (int (0 div 2)))" for r
    by (rule frame_line_8_fields(2)) (simp_all add: example_avctx_simps)
  have c: "chroma_line ?P 0 = 0" "chroma_line ?P 1 = 1"
    by (simp_all add: chroma_line_def example_pic_simps)
  show ?thesis
    using f [of 0] f [of 1]
    by (simp add: l c example_sample_u up2_def CLIP8_def av_clip_def)
qed

text \<open>C1, amended: in the packet of an interlaced 4:2:0 frame, the chroma fields of output
  rows \<open>4k\<close> and \<open>4k + 2\<close> are identical, and those of rows \<open>4k + 1\<close> and \<open>4k + 3\<close> are
  identical: rows \<open>4k\<close> and \<open>4k + 2\<close> are packed from the chroma row captured at row \<open>4k\<close>
  (chroma row \<open>2k\<close>), rows \<open>4k + 1\<close> and \<open>4k + 3\<close> from the chroma row after it (chroma row
  \<open>2k + 1\<close>).  Here \<open>r\<close> is \<open>4k\<close> or \<open>4k + 1\<close>.\<close>

theorem interlaced_chroma_rows:
  assumes "priv_data avctx = ff_v210enc_init"
    and "0 \<le> width avctx" "even (width avctx)"
    and "format pic = AV_PIX_FMT_YUV420P" "interlaced_frame pic = 1"
    and "encode_frame alloc nsd avctx pic = Inr pkt"
    and "r mod 4 < 2" "int (r + 2) < height avctx" "int x < width avctx"
  shows "let c = int (2 * (r div 4) + r mod 4);
             j = x div 2;
             la = out_line avctx (pkt_data pkt) r;
             lb = out_line avctx (pkt_data pkt) (r + 2)
         in out_field la (4 * j) = push_bit 2 (CLIP8 (plane_sample_8 pic 1 c (int j))) \<and>
            out_field la (4 * j + 2) = push_bit 2 (CLIP8 (plane_sample_8 pic 2 c (int j))) \<and>
            out_field lb (4 * j) = out_field la (4 * j) \<and>
            out_field lb (4 * j + 2) = out_field la (4 * j + 2)"
proof -
  have fmt: "format pic = AV_PIX_FMT_YUV422P \<or> format pic = AV_PIX_FMT_YUV420P"
    using assms(4) by simp
  have r: "int r < height avctx"
    using assms(8) by simp
  note la = encode_frame_lines(2) [OF assms(1,2,3,6) r fmt]
  note lb = encode_frame_lines(2) [OF assms(1,2,3,6,8) fmt]
  note c = chroma_line_interlaced [OF assms(4,5,7)]
  note fa = frame_line_8_fields(2,3) [OF assms(2,3,9), of pic r]
  note fb = frame_line_8_fields(2,3) [OF assms(2,3,9), of pic "r + 2"]
  show ?thesis
    unfolding Let_def la lb fa fb c up2_def by (simp only: simp_thms)
qed

theorem interlaced_chroma_rows_witness:
  "out_field (out_line (example_avctx 2 4)
      (pkt_data (projr (encode_frame alloc_ok side_data_alloc_ok (example_avctx 2 4) (example_pic AV_PIX_FMT_YUV420P 1)))) 0) 0
     = 464 \<and>
   out_field (out_line (example_avctx 2 4)
      (pkt_data (projr (encode_frame alloc_ok side_data_alloc_ok (example_avctx 2 4) (example_pic AV_PIX_FMT_YUV420P 1)))) 2) 0
     = 464"
  using interlaced_chroma_rows [of "example_avctx 2 4" "example_pic AV_PIX_FMT_YUV420P 1" alloc_ok side_data_alloc_ok
      "projr (encode_frame alloc_ok side_data_alloc_ok (example_avctx 2 4) (example_pic AV_PIX_FMT_YUV420P 1))" 0 0]
    example_encode [of 2 4 "example_pic AV_PIX_FMT_YUV420P 1"]
  by (simp add: example_avctx_simps example_pic_simps Let_def example_sample_u CLIP8_def av_clip_def
        del: add_2_eq_Suc add_2_eq_Suc')

text \<open>C2: for every group \<open>g\<close> of six luma and three plus three chroma samples of a run of
  \<open>6n\<close> samples, the 10-bit packer writes four little-endian words, in this order:
  \<open>clip(U) | clip(Y) << 10 | clip(V) << 20\<close>, \<open>clip(Y) | clip(U) << 10 | clip(Y) << 20\<close>,
  \<open>clip(V) | clip(Y) << 10 | clip(U) << 20\<close>, \<open>clip(Y) | clip(V) << 10 | clip(Y) << 20\<close>,
  taking the samples in order; it writes \<open>16n\<close> bytes in all, and bits 30 and 31 of every
  word written are zero.\<close>

theorem pack_10_group_words:
  fixes Y U V :: "int \<Rightarrow> 16 word"
  assumes "g < n"
  shows "let out = dst (v210_planar_pack_10_c (Y, U, V) y u v (6 * int n)) in
     length out = 16 * n \<and>
     out_word out (4 * g) =
       v210_word (CLIP (uint (U (u + 3 * int g)))) (CLIP (uint (Y (y + 6 * int g))))
         (CLIP (uint (V (v + 3 * int g)))) \<and>
     out_word out (4 * g + 1) =
       v210_word (CLIP (uint (Y (y + 6 * int g + 1)))) (CLIP (uint (U (u + 3 * int g + 1))))
         (CLIP (uint (Y (y + 6 * int g + 2)))) \<and>
     out_word out (4 * g + 2) =
       v210_word (CLIP (uint (V (v + 3 * int g + 1)))) (CLIP (uint (Y (y + 6 * int g + 3))))
         (CLIP (uint (U (u + 3 * int g + 2)))) \<and>
     out_word out (4 * g + 3) =
       v210_word (CLIP (uint (Y (y + 6 * int g + 4)))) (CLIP (uint (V (v + 3 * int g + 2))))
         (CLIP (uint (Y (y + 6 * int g + 5)))) \<and>
     (\<forall>k < 4 * n. \<not> bit (out_word out k) 30 \<and> \<not> bit (out_word out k) 31)"
proof -
  let ?P = "(Y, U, V)"
  let ?ws = "wire_samples ?P y u v (3 * n)"
  have q: "3 * g < 3 * n" "3 * g + 1 < 3 * n" "3 * g + 2 < 3 * n"
    using assms by simp_all
  have c0: "?ws ! (12 * g) = uint (U (u + 3 * int g))"
       "?ws ! (12 * g + 1) = uint (Y (y + 6 * int g))"
       "?ws ! (12 * g + 2) = uint (V (v + 3 * int g))"
       "?ws ! (12 * g + 3) = uint (Y (y + 6 * int g + 1))"
    using wire_samples_nth [OF q(1), of ?P y u v] by simp_all
  have c1: "?ws ! (12 * g + 4) = uint (U (u + 3 * int g + 1))"
       "?ws ! (12 * g + 5) = uint (Y (y + 6 * int g + 2))"
       "?ws ! (12 * g + 6) = uint (V (v + 3 * int g + 1))"
       "?ws ! (12 * g + 7) = uint (Y (y + 6 * int g + 3))"
    using wire_samples_nth [OF q(2), of ?P y u v] by (simp_all add: algebra_simps)
  have c2: "?ws ! (12 * g + 8) = uint (U (u + 3 * int g + 2))"
       "?ws ! (12 * g + 9) = uint (Y (y + 6 * int g + 4))"
       "?ws ! (12 * g + 10) = uint (V (v + 3 * int g + 2))"
       "?ws ! (12 * g + 11) = uint (Y (y + 6 * int g + 5))"
    using wire_samples_nth [OF q(3), of ?P y u v] by (simp_all add: algebra_simps)
  have w0: "out_word (packed_bytes CLIP ?P y u v (3 * n) @ []) (4 * g)
      = v210_word (CLIP (?ws ! (12 * g))) (CLIP (?ws ! (12 * g + 1))) (CLIP (?ws ! (12 * g + 2)))"
    using assms by (subst packed_word) simp_all
  have w1: "out_word (packed_bytes CLIP ?P y u v (3 * n) @ []) (4 * g + 1)
      = v210_word (CLIP (?ws ! (12 * g + 3))) (CLIP (?ws ! (12 * g + 4))) (CLIP (?ws ! (12 * g + 5)))"
    using assms by (subst packed_word) (simp_all add: algebra_simps)
  have w2: "out_word (packed_bytes CLIP ?P y u v (3 * n) @ []) (4 * g + 2)
      = v210_word (CLIP (?ws ! (12 * g + 6))) (CLIP (?ws ! (12 * g + 7))) (CLIP (?ws ! (12 * g + 8)))"
    using assms by (subst packed_word) (simp_all add: algebra_simps)
  have w3: "out_word (packed_bytes CLIP ?P y u v (3 * n) @ []) (4 * g + 3)
      = v210_word (CLIP (?ws ! (12 * g + 9))) (CLIP (?ws ! (12 * g + 10))) (CLIP (?ws ! (12 * g + 11)))"
    using assms by (subst packed_word) (simp_all add: algebra_simps)
  have top: "\<not> bit (out_word (packed_bytes CLIP ?P y u v (3 * n) @ []) k) 30
      \<and> \<not> bit (out_word (packed_bytes CLIP ?P y u v (3 * n) @ []) k) 31" if "k < 4 * n" for k
    using that by (intro packed_top_bits CLIP_field) simp
  have len: "length (packed_bytes CLIP ?P y u v (3 * n) @ []) = 16 * n"
    by (simp add: length_packed_bytes)
  show ?thesis
    unfolding Let_def pack_10_dst
    using len w0 w1 w2 w3 top by (simp only: c0 c1 c2) blast
qed

theorem pack_10_group_words_witness:
  "let out = dst (v210_planar_pack_10_c (example_y, example_u, example_v) 0 0 0 6) in
     length out = 16 \<and>
     out_word out 0 = v210_word 10 100 40 \<and>
     out_word out 1 = v210_word 200 20 300 \<and>
     out_word out 2 = v210_word 50 400 30 \<and>
     out_word out 3 = v210_word 500 60 600"
  using pack_10_group_words [of 0 1 example_y example_u example_v 0 0 0]
  by (simp add: Let_def example_y_def example_u_def example_v_def CLIP_def av_clip_def
      del: add_2_eq_Suc add_2_eq_Suc')

text \<open>C3, as the specification states it, fails: when exactly 4 samples remain, the tail
  code writes three words, and the first of them is not a partial word of U and Y with
  the V slot left for later: it is the complete word of \<open>U\<^sub>0\<close>, \<open>Y\<^sub>0\<close>, \<open>V\<^sub>0\<close>, whose third
  field holds the clipped V sample (40 in the example of the specification).\<close>

theorem tail_first_word_counterexample:
  "(let out = dst (encode_tail_10 0 (example_y, example_u, example_v) 4 0
       \<lparr>ptr_y = 0, ptr_u = 0, ptr_v = 0, dst = []\<rparr>)
    in length out = 12 \<and>
       out_word out 0 = v210_word 10 100 40 \<and>
       out_word out 1 = v210_word 200 20 300 \<and>
       out_word out 2 = v210_word 50 400 0 \<and>
       field 2 (out_word out 0) = 40)
   \<and> (40 :: int) \<noteq> 0"
proof -
  have "encode_tail_10 0 (example_y, example_u, example_v) 4 0 \<lparr>ptr_y = 0, ptr_u = 0, ptr_v = 0, dst = []\<rparr>
      = packed CLIP (example_y, example_u, example_v) 2 \<lparr>ptr_y = 0, ptr_u = 0, ptr_v = 0, dst = []\<rparr>"
    by (subst encode_tail_10_eq) simp_all
  then show ?thesis
    by (simp add: packed_2 out_word_three field_v210_word CLIP_def av_clip_def
          example_y_def example_u_def example_v_def Let_def length_AV_WL32 del: One_nat_def)
qed

text \<open>C3, amended: at the remainder boundary \<open>w\<close>, when exactly 4 samples remain the tail
  code writes the complete word of \<open>U\<^sub>0\<close>, \<open>Y\<^sub>0\<close>, \<open>V\<^sub>0\<close>, then the word begun with \<open>Y\<^sub>1\<close> and
  completed with \<open>U\<^sub>1\<close> and \<open>Y\<^sub>2\<close>, then a word of \<open>V\<^sub>1\<close> and \<open>Y\<^sub>3\<close> whose third field is
  zero; when exactly 2 remain it writes the word of \<open>U\<^sub>0\<close>, \<open>Y\<^sub>0\<close>, \<open>V\<^sub>0\<close> and at once the
  word that holds only \<open>Y\<^sub>1\<close>; when none remain it writes nothing.  So the leftover samples
  always go into whole 4-byte words: 12, 8 or 0 bytes.  The same holds on the 8-bit path
  with the fields \<open>CLIP8(s) << 2\<close>.\<close>

theorem tail_words:
  "encode_tail_10 val0 (Y, U, V) (w + 4) w s =
     s\<lparr>ptr_y := ptr_y s + 4, ptr_u := ptr_u s + 2, ptr_v := ptr_v s + 2,
       dst := dst s
         @ AV_WL32 (v210_word (CLIP (uint (U (ptr_u s)))) (CLIP (uint (Y (ptr_y s)))) (CLIP (uint (V (ptr_v s)))))
         @ AV_WL32 (v210_word (CLIP (uint (Y (ptr_y s + 1)))) (CLIP (uint (U (ptr_u s + 1)))) (CLIP (uint (Y (ptr_y s + 2)))))
         @ AV_WL32 (v210_word (CLIP (uint (V (ptr_v s + 1)))) (CLIP (uint (Y (ptr_y s + 3)))) 0)\<rparr>
   \<and> encode_tail_10 val0 (Y, U, V) (w + 2) w s =
     s\<lparr>ptr_y := ptr_y s + 2, ptr_u := ptr_u s + 1, ptr_v := ptr_v s + 1,
       dst := dst s
         @ AV_WL32 (v210_word (CLIP (uint (U (ptr_u s)))) (CLIP (uint (Y (ptr_y s)))) (CLIP (uint (V (ptr_v s)))))
         @ AV_WL32 (v210_word (CLIP (uint (Y (ptr_y s + 1)))) 0 0)\<rparr>
   \<and> encode_tail_10 val0 (Y, U, V) w w s = s
   \<and> encode_tail_8 val0 (Y8, U8, V8) (w + 4) w t =
     t\<lparr>ptr_y := ptr_y t + 4, ptr_u := ptr_u t + 2, ptr_v := ptr_v t + 2,
       dst := dst t
         @ AV_WL32 (v210_word (up2 (uint (U8 (ptr_u t)))) (up2 (uint (Y8 (ptr_y t)))) (up2 (uint (V8 (ptr_v t)))))
         @ AV_WL32 (v210_word (up2 (uint (Y8 (ptr_y t + 1)))) (up2 (uint (U8 (ptr_u t + 1)))) (up2 (uint (Y8 (ptr_y t + 2)))))
         @ AV_WL32 (v210_word (up2 (uint (V8 (ptr_v t + 1)))) (up2 (uint (Y8 (ptr_y t + 3)))) 0)\<rparr>
   \<and> encode_tail_8 val0 (Y8, U8, V8) (w + 2) w t =
     t\<lparr>ptr_y := ptr_y t + 2, ptr_u := ptr_u t + 1, ptr_v := ptr_v t + 1,
       dst := dst t
         @ AV_WL32 (v210_word (up2 (uint (U8 (ptr_u t)))) (up2 (uint (Y8 (ptr_y t)))) (up2 (uint (V8 (ptr_v t)))))
         @ AV_WL32 (v210_word (up2 (uint (Y8 (ptr_y t + 1)))) 0 0)\<rparr>
   \<and> encode_tail_8 val0 (Y8, U8, V8) w w t = t"
proof (intro conjI)
  show "encode_tail_10 val0 (Y, U, V) w w s = s"
    by (simp add: encode_tail_10_def)
  show "encode_tail_8 val0 (Y8, U8, V8) w w t = t"
    by (simp add: encode_tail_8_def)
qed (subst encode_tail_10_eq encode_tail_8_eq; simp add: packed_1 packed_2)+

text \<open>C4, as the specification states it, fails: for a run of 6 samples the 10-bit packer
  writes 16 bytes, not \<open>6/6 * 4 = 4\<close>.\<close>

theorem pack_bulk_bytes_counterexample:
  "length (dst (v210_planar_pack_10_c (example_y, example_u, example_v) 0 0 0 6)) = 16
     \<and> (16 :: nat) \<noteq> 6 div 6 * 4"
  using pack_10_state [of "(example_y, example_u, example_v)" 0 0 0 1]
    length_packed_bytes_3 [of CLIP "(example_y, example_u, example_v)" 0 0 0 1]
  by (simp add: packed_def)

text \<open>C4, amended: for a sample count that is a multiple of the group size, the 10-bit
  packer (count \<open>6n\<close>) writes \<open>count/6 * 16\<close> bytes, that is \<open>count/6 * 4\<close> words of 4 bytes,
  and the 8-bit packer (count \<open>12n\<close>) writes \<open>count/12 * 32\<close> bytes; the luma pointer ends
  \<open>count\<close> samples and each chroma pointer \<open>count/2\<close> samples further.\<close>

theorem pack_bulk_bytes:
  "(let s = v210_planar_pack_10_c P y u v (6 * int n) in
      length (dst s) = 16 * n \<and> ptr_y s = y + 6 * int n \<and>
      ptr_u s = u + 3 * int n \<and> ptr_v s = v + 3 * int n) \<and>
   (let s = v210_planar_pack_8_c Q y u v (12 * int n) in
      length (dst s) = 32 * n \<and> ptr_y s = y + 12 * int n \<and>
      ptr_u s = u + 6 * int n \<and> ptr_v s = v + 6 * int n)"
  by (simp add: pack_10_state pack_8_state packed_def length_packed_bytes_3 length_packed_bytes_6 Let_def)

text \<open>C5: for every even width from 0 to 268435440, no value of the computation of the
  stride and of the padding (\<open>width + 47\<close>, \<open>aligned_width * 8\<close>, \<open>width * 8 + 11\<close>) leaves
  the range of a 32-bit \<open>int\<close>, the stride that \<open>encode_frame\<close> computes is
  \<open>ceil(width/48)*48 * 8 / 3\<close>, it is a multiple of 4, and it is the same for every
  context of that width, whatever the height and the frame.  These are all the widths
  for which the computation is defined in C: for every larger width the product
  \<open>aligned_width * 8\<close> exceeds \<open>INT_MAX\<close>.  When moreover the height is not negative and \<open>height * stride\<close>
  is at most \<open>INT_MAX\<close>: the size asked of \<open>ff_alloc_packet2\<close> is \<open>height * stride\<close>, a
  failure of that allocation being the error returned; every packet that \<open>encode_frame\<close>
  returns for a frame of one of the three formats has the size \<open>height * stride\<close> and
  exactly that many bytes are written to it; and \<open>encode_frame\<close> returns a packet when
  that allocation succeeds and the side data of the frame can be copied.\<close>

theorem stride_and_packet_size:
  assumes "0 \<le> width avctx" "even (width avctx)" "width avctx \<le> 268435440"
  shows "width avctx + 47 \<le> INT_MAX \<and> 0 \<le> aligned_width avctx \<and>
     aligned_width avctx * 8 \<le> INT_MAX \<and> width avctx * 8 + 11 \<le> INT_MAX \<and>
     0 \<le> stride avctx \<and> stride avctx \<le> INT_MAX \<and>
     stride avctx = stride_spec (width avctx) \<and>
     4 dvd stride avctx \<and>
     (\<forall>avctx'. width avctx' = width avctx \<longrightarrow> stride avctx' = stride avctx) \<and>
     (\<forall>avctx'. 268435440 < width avctx' \<longrightarrow> INT_MAX < aligned_width avctx' * 8) \<and>
     (priv_data avctx = ff_v210enc_init \<and> format pic \<noteq> AV_PIX_FMT_NONE \<and>
      0 \<le> height avctx \<and> height avctx * stride avctx \<le> INT_MAX \<longrightarrow>
        (alloc (height avctx * stride avctx) < 0 \<longrightarrow>
           encode_frame alloc nsd avctx pic = Inl (AVERROR_alloc (alloc (height avctx * stride avctx)))) \<and>
        (\<forall>pkt. encode_frame alloc nsd avctx pic = Inr pkt \<longrightarrow>
           pkt_size pkt = height avctx * stride avctx \<and>
           length (pkt_data pkt) = nat (height avctx * stride avctx)) \<and>
        (0 \<le> alloc (height avctx * stride avctx) \<and> side_data_ok nsd pic \<longrightarrow>
           (\<exists>pkt. encode_frame alloc nsd avctx pic = Inr pkt)))"
proof (intro conjI impI allI)
  note rg = stride_in_int_range [OF assms(1,3)]
  show "width avctx + 47 \<le> INT_MAX" "aligned_width avctx * 8 \<le> INT_MAX"
    "width avctx * 8 + 11 \<le> INT_MAX" "0 \<le> stride avctx" "stride avctx \<le> INT_MAX"
    using rg by (simp_all add: INT_MAX_def)
  have "0 \<le> (width avctx + 47) div 48"
    using assms(1) by simp
  then show "0 \<le> aligned_width avctx"
    using assms(1) by (simp add: aligned_width_def sdiv_nonneg)
  show "stride avctx = stride_spec (width avctx)"
    using assms(1) by (simp add: stride_eq stride_spec_eq)
  show "4 dvd stride avctx"
    using assms(1) by (simp add: stride_eq)
  show "stride avctx' = stride avctx" if "width avctx' = width avctx" for avctx'
    using that by (simp add: stride_def aligned_width_def)
  show "INT_MAX < aligned_width avctx' * 8" if "268435440 < width avctx'" for avctx'
  proof -
    have "5592406 \<le> (width avctx' + 47) div 48"
      using that by simp
    moreover have "aligned_width avctx' = (width avctx' + 47) div 48 * 48"
      using that by (simp add: aligned_width_def sdiv_nonneg)
    ultimately show ?thesis
      by (simp add: INT_MAX_def)
  qed
next
  assume "alloc (height avctx * stride avctx) < 0"
  then show "encode_frame alloc nsd avctx pic = Inl (AVERROR_alloc (alloc (height avctx * stride avctx)))"
    by (simp add: encode_frame_def Let_def)
next
  assume "0 \<le> alloc (height avctx * stride avctx) \<and> side_data_ok nsd pic"
  then show "\<exists>pkt. encode_frame alloc nsd avctx pic = Inr pkt"
    using encode_frame_ok [of alloc avctx nsd pic] by blast
next
  fix pkt
  assume a: "priv_data avctx = ff_v210enc_init \<and> format pic \<noteq> AV_PIX_FMT_NONE \<and>
      0 \<le> height avctx \<and> height avctx * stride avctx \<le> INT_MAX"
    and enc: "encode_frame alloc nsd avctx pic = Inr pkt"
  from a have ctx: "priv_data avctx = ff_v210enc_init"
    by simp
  show "pkt_size pkt = height avctx * stride avctx"
    by (rule encode_frame_Inr(2) [OF enc])
  from a consider "format pic = AV_PIX_FMT_YUV422P10"
    | "format pic = AV_PIX_FMT_YUV422P \<or> format pic = AV_PIX_FMT_YUV420P"
    by (cases "format pic") auto
  then show "length (pkt_data pkt) = nat (height avctx * stride avctx)"
  proof cases
    case 1
    show ?thesis
      unfolding encode_frame_10 [OF ctx assms(1,2) 1 enc] by (rule length_frame(1) [OF assms(1,2)])
  next
    case 2
    show ?thesis
      unfolding encode_frame_8 [OF ctx assms(1,2) 2 enc] by (rule length_frame(2) [OF assms(1,2)])
  qed
qed

theorem stride_and_packet_size_witness:
  "0 \<le> width (example_avctx 1920 1080) \<and> even (width (example_avctx 1920 1080)) \<and>
   width (example_avctx 1920 1080) \<le> 268435440 \<and>
   stride (example_avctx 1920 1080) = 5120 \<and> stride_spec 1920 = 5120 \<and>
   (\<exists>pkt. encode_frame alloc_ok side_data_alloc_ok (example_avctx 1920 1080)
             (example_pic AV_PIX_FMT_YUV420P 0) = Inr pkt \<and>
      pkt_size pkt = 5529600 \<and> length (pkt_data pkt) = 5529600)"
proof -
  have w: "0 \<le> width (example_avctx 1920 1080)" "even (width (example_avctx 1920 1080))"
    "width (example_avctx 1920 1080) \<le> 268435440"
    by (simp_all add: example_avctx_def)
  have s: "stride (example_avctx 1920 1080) = 5120"
    by (simp add: stride_def aligned_width_def example_avctx_def)
  show ?thesis
    using stride_and_packet_size [OF w, of "example_pic AV_PIX_FMT_YUV420P 0" alloc_ok side_data_alloc_ok]
      w side_data_alloc_ok [of "example_pic AV_PIX_FMT_YUV420P 0"]
    by (simp add: s example_avctx_simps example_pic_simps alloc_ok_def INT_MAX_def) blast
qed



text \<open>C7: in the packet of a frame of one of the three formats, in every output line,
  the \<open>line_padding\<close> bytes from the end of the content (offset \<open>stride - line_padding\<close>)
  up to the stride are zero.\<close>

theorem line_padding_zero:
  assumes "priv_data avctx = ff_v210enc_init"
    and "0 \<le> width avctx" "even (width avctx)"
    and "format pic \<noteq> AV_PIX_FMT_NONE"
    and "encode_frame alloc nsd avctx pic = Inr pkt"
    and "int r < height avctx"
    and "stride avctx - line_padding avctx \<le> int i" "int i < stride avctx"
  shows "out_line avctx (pkt_data pkt) r ! i = 0"
proof -
  have nth: "(packed_bytes f P y u v (nat (width avctx div 2)) @ replicate (nat (line_padding avctx)) 0) ! i = 0"
    for f and P :: "'a::len planes" and y u v
    using length_content(1) [OF assms(2,3), of f P y u v] length_content(2) [OF assms(2,3)] assms(7,8)
    by (simp add: nth_append)
  from assms(4) consider "format pic = AV_PIX_FMT_YUV422P10"
    | "format pic = AV_PIX_FMT_YUV422P \<or> format pic = AV_PIX_FMT_YUV420P"
    by (cases "format pic") auto
  then show ?thesis
  proof cases
    case 1
    show ?thesis
      unfolding encode_frame_lines(1) [OF assms(1,2,3,5,6) 1] frame_line_10_def by (rule nth)
  next
    case 2
    show ?thesis
      unfolding encode_frame_lines(2) [OF assms(1,2,3,5,6) 2] frame_line_8_def by (rule nth)
  qed
qed

theorem line_padding_zero_witness:
  "stride (example_avctx 2 1) - line_padding (example_avctx 2 1) \<le> 100 \<and>
   100 < stride (example_avctx 2 1) \<and>
   out_line (example_avctx 2 1)
     (pkt_data (projr (encode_frame alloc_ok side_data_alloc_ok (example_avctx 2 1) (example_pic AV_PIX_FMT_YUV422P 0))))
     0 ! 100 = 0"
  using line_padding_zero [of "example_avctx 2 1" "example_pic AV_PIX_FMT_YUV422P 0" alloc_ok side_data_alloc_ok
      "projr (encode_frame alloc_ok side_data_alloc_ok (example_avctx 2 1) (example_pic AV_PIX_FMT_YUV422P 0))" 0 100]
    example_encode [of 2 1 "example_pic AV_PIX_FMT_YUV422P 0"]
  by (simp add: example_avctx_simps example_pic_simps example_stride_2)

text \<open>C8: \<open>encode_init\<close> fails, with the invalid-argument error, if and only if the width is
  odd, and succeeds for every even width, keeping the width and installing the packers;
  in a session a failed setup is the result of the whole session and no frame is
  encoded, while after a successful setup every frame is encoded with the context of the
  setup; \<open>encode_frame\<close> itself never reports the width error.\<close>

theorem encode_init_width:
  "(encode_init g avctx = Inl AVERROR_EINVAL) = odd (width avctx) \<and>
   (\<exists>ctx. encode_init g avctx = Inr ctx \<and> width ctx = width avctx \<and>
      priv_data ctx = ff_v210enc_init) = even (width avctx) \<and>
   (odd (width avctx) \<longrightarrow> encode_session g alloc nsd avctx frames = Inl AVERROR_EINVAL) \<and>
   (even (width avctx) \<longrightarrow>
      (\<exists>ctx. encode_init g avctx = Inr ctx \<and>
         encode_session g alloc nsd avctx frames = Inr (map (encode_frame alloc nsd ctx) frames))) \<and>
   encode_frame alloc nsd avctx pic \<noteq> Inl AVERROR_EINVAL"
  by (simp add: encode_init_def encode_session_def width_and_1 encode_frame_not_EINVAL Let_def)

theorem encode_init_width_witness:
  "odd (width (example_avctx 3 2)) \<and>
   encode_init guess_zero (example_avctx 3 2) = Inl AVERROR_EINVAL \<and>
   encode_session guess_zero alloc_ok side_data_alloc_ok (example_avctx 3 2) [example_pic AV_PIX_FMT_YUV422P 0]
     = Inl AVERROR_EINVAL \<and>
   even (width (example_avctx 4 2)) \<and>
   (\<exists>ctx. encode_init guess_zero (example_avctx 4 2) = Inr ctx \<and>
      encode_session guess_zero alloc_ok side_data_alloc_ok (example_avctx 4 2) [example_pic AV_PIX_FMT_YUV422P 0]
        = Inr [encode_frame alloc_ok side_data_alloc_ok ctx (example_pic AV_PIX_FMT_YUV422P 0)])"
  using encode_init_width [of guess_zero "example_avctx 3 2" alloc_ok side_data_alloc_ok "[example_pic AV_PIX_FMT_YUV422P 0]"]
    encode_init_width [of guess_zero "example_avctx 4 2" alloc_ok side_data_alloc_ok "[example_pic AV_PIX_FMT_YUV422P 0]"]
  by (simp add: example_avctx_simps)



text \<open>C10: for a width with \<open>width mod 6 = 2\<close>, the last content word of every output line
  (the word before offset \<open>stride - line_padding\<close>) holds the clipped last luma sample of
  the row in bits 0 to 9 (\<open>CLIP(s)\<close> on the 10-bit path, \<open>CLIP8(s) << 2\<close> on the 8-bit path)
  and bits 10 to 31 of it are zero.\<close>

theorem last_content_word:
  assumes "priv_data avctx = ff_v210enc_init"
    and "0 \<le> width avctx" "width avctx mod 6 = 2"
    and "encode_frame alloc nsd avctx pic = Inr pkt"
    and "int r < height avctx"
  shows "(format pic = AV_PIX_FMT_YUV422P10 \<longrightarrow>
       (let w = out_word (out_line avctx (pkt_data pkt) r)
                  (nat ((stride avctx - line_padding avctx) div 4) - 1)
        in field 0 w = CLIP (plane_sample_10 pic 0 (int r) (width avctx - 1)) \<and>
           drop_bit 10 w = 0)) \<and>
    (format pic = AV_PIX_FMT_YUV422P \<or> format pic = AV_PIX_FMT_YUV420P \<longrightarrow>
       (let w = out_word (out_line avctx (pkt_data pkt) r)
                  (nat ((stride avctx - line_padding avctx) div 4) - 1)
        in field 0 w = push_bit 2 (CLIP8 (plane_sample_8 pic 0 (int r) (width avctx - 1))) \<and>
           drop_bit 10 w = 0))"
proof (intro conjI impI)
  have ev: "even (width avctx)"
    using assms(3) by presburger
  {
    assume fmt: "format pic = AV_PIX_FMT_YUV422P10"
    note l = encode_frame_lines(1) [OF assms(1,2) ev assms(4,5) fmt]
    note w = last_word_mod6_2 [of CLIP, OF CLIP_field assms(2,3)]
    show "let w = out_word (out_line avctx (pkt_data pkt) r)
                  (nat ((stride avctx - line_padding avctx) div 4) - 1)
        in field 0 w = CLIP (plane_sample_10 pic 0 (int r) (width avctx - 1)) \<and>
           drop_bit 10 w = 0"
      unfolding Let_def l frame_line_10_def plane_sample_10_def
      by (simp only: w(2) simp_thms) (simp only: w(1) field_0_CLIP)
  }
  {
    assume fmt: "format pic = AV_PIX_FMT_YUV422P \<or> format pic = AV_PIX_FMT_YUV420P"
    note l = encode_frame_lines(2) [OF assms(1,2) ev assms(4,5) fmt]
    note w = last_word_mod6_2 [of up2, OF up2_field assms(2,3)]
    show "let w = out_word (out_line avctx (pkt_data pkt) r)
                  (nat ((stride avctx - line_padding avctx) div 4) - 1)
        in field 0 w = push_bit 2 (CLIP8 (plane_sample_8 pic 0 (int r) (width avctx - 1))) \<and>
           drop_bit 10 w = 0"
      unfolding Let_def l frame_line_8_def plane_sample_8_def up2_def [symmetric]
      by (simp only: w(2) simp_thms) (simp only: w(1) field_0_up2)
  }
qed

theorem last_content_word_witness:
  "width (example_avctx 2 1) mod 6 = 2 \<and>
   (let w = out_word (out_line (example_avctx 2 1)
        (pkt_data (projr (encode_frame alloc_ok side_data_alloc_ok (example_avctx 2 1) example_pic_10))) 0) 1
    in field 0 w = 18 \<and> drop_bit 10 w = 0) \<and>
   (let w = out_word (out_line (example_avctx 2 1)
        (pkt_data (projr (encode_frame alloc_ok side_data_alloc_ok (example_avctx 2 1) (example_pic AV_PIX_FMT_YUV422P 0)))) 0) 1
    in field 0 w = 104 \<and> drop_bit 10 w = 0)"
  using last_content_word [of "example_avctx 2 1" alloc_ok side_data_alloc_ok example_pic_10
      "projr (encode_frame alloc_ok side_data_alloc_ok (example_avctx 2 1) example_pic_10)" 0]
    last_content_word [of "example_avctx 2 1" alloc_ok side_data_alloc_ok "example_pic AV_PIX_FMT_YUV422P 0"
      "projr (encode_frame alloc_ok side_data_alloc_ok (example_avctx 2 1) (example_pic AV_PIX_FMT_YUV422P 0))" 0]
    example_encode [of 2 1 example_pic_10]
    example_encode [of 2 1 "example_pic AV_PIX_FMT_YUV422P 0"]
  by (simp add: example_avctx_simps example_pic_simps example_pic_10_simps Let_def
        example_sample_10 example_sample_8 example_stride_2 CLIP_def CLIP8_def av_clip_def)

end
